theory Spec2Isabelle
  imports Main "HOL-Library.Sublist"
begin

section \<open>Text, character classes and patterns\<close>

text \<open>
  The two scripts read the whole of \<^verbatim>\<open>test/SimpleDEX.test.js\<close> into a Python
  \<^verbatim>\<open>str\<close>, rewrite it with \<^verbatim>\<open>re.sub\<close> and \<^verbatim>\<open>str.replace\<close>, and write it back.
  A text is modelled as a \<^typ>\<open>string\<close>: a list of characters with code points below 256.
  The theory embeds what happens between the read and the write, the transformation of
  the variable \<^verbatim>\<open>content\<close>; opening, decoding and writing the file are not modelled.

  Python's \<^verbatim>\<open>\s\<close> on a \<^verbatim>\<open>str\<close> pattern is Unicode white space; below 256 these are
  the code points 9 to 13, 28 to 32, 133 and 160.
\<close>

definition is_space :: "char \<Rightarrow> bool" where
  "is_space c \<longleftrightarrow> c \<in> set [CHR 0x09, CHR 0x0A, CHR 0x0B, CHR 0x0C, CHR 0x0D,
     CHR 0x1C, CHR 0x1D, CHR 0x1E, CHR 0x1F, CHR 0x20, CHR 0x85, CHR 0xA0]"

text \<open>The line feed, written \<^verbatim>\<open>\n\<close> in the scripts.\<close>

abbreviation nl :: char where
  "nl \<equiv> CHR 0x0A"

text \<open>
  The character classes the scripts use: \<^verbatim>\<open>\s\<close>, a negated one-character set such as
  \<^verbatim>\<open>[^,]\<close>, and a positive set such as \<^verbatim>\<open>[12]\<close>.
\<close>

datatype cls = Space | Not_char char | One_of string

fun in_cls :: "cls \<Rightarrow> char \<Rightarrow> bool" where
  "in_cls Space c = is_space c"
| "in_cls (Not_char x) c = (c \<noteq> x)"
| "in_cls (One_of xs) c = (c \<in> set xs)"

text \<open>
  A pattern is a sequence of atoms: literal text, one character of a class, a greedy
  repetition of a class with a least count (\<^verbatim>\<open>*\<close> is least count 0, \<^verbatim>\<open>+\<close> is 1), and
  the opening and closing parentheses of a numbered capture group. No pattern of the
  scripts has an alternative, an anchor or a dot, so the flags \<^verbatim>\<open>re.MULTILINE\<close> and
  \<^verbatim>\<open>re.DOTALL\<close> change nothing.
\<close>

datatype atom = Lit string | One cls | Rep cls nat | Open nat | Close nat

datatype mark = Start nat | End nat

type_synonym marks = "(mark \<times> nat) list"

text \<open>
  A greedy repetition first takes as many characters as it can and gives them back one
  at a time while the rest of the pattern fails: \<open>backoff f lo k\<close> tries the counts
  \<open>k\<close>, \<open>k - 1\<close>, ... down to \<open>lo\<close> and returns the first success of \<open>f\<close>.
\<close>

fun backoff :: "(nat \<Rightarrow> 'a option) \<Rightarrow> nat \<Rightarrow> nat \<Rightarrow> 'a option" where
  "backoff f lo 0 = (if lo = 0 then f 0 else None)"
| "backoff f lo (Suc k) =
     (if Suc k < lo then None
      else case f (Suc k) of Some r \<Rightarrow> Some r | None \<Rightarrow> backoff f lo k)"

text \<open>
  The backtracking matcher: \<open>rx as i s m\<close> matches the atoms \<open>as\<close> at the head of \<open>s\<close>,
  where \<open>i\<close> characters of the match are already consumed and \<open>m\<close> holds the group
  boundaries seen so far. The result is the offset at which the match ends, with the
  boundaries, or \<open>None\<close> when every alternative fails.
\<close>

fun rx :: "atom list \<Rightarrow> nat \<Rightarrow> string \<Rightarrow> marks \<Rightarrow> (nat \<times> marks) option" where
  "rx [] i s m = Some (i, m)"
| "rx (Lit l # as) i s m =
     (if prefix l s then rx as (i + length l) (drop (length l) s) m else None)"
| "rx (One c # as) i s m =
     (case s of [] \<Rightarrow> None
      | x # xs \<Rightarrow> if in_cls c x then rx as (Suc i) xs m else None)"
| "rx (Rep c lo # as) i s m =
     backoff (\<lambda>k. rx as (i + k) (drop k s) m) lo (length (takeWhile (in_cls c) s))"
| "rx (Open g # as) i s m = rx as i s ((Start g, i) # m)"
| "rx (Close g # as) i s m = rx as i s ((End g, i) # m)"

text \<open>
  A match object: the text from the start of the match on, the offset of the end of the
  match and the group boundaries. \<open>match_group\<close> is \<^verbatim>\<open>match.group(g)\<close>; a group that took no part
  in the match (Python's \<^verbatim>\<open>None\<close>) reads as the empty text here.
\<close>

record match_obj =
  subject :: string
  span_end :: nat
  bounds :: marks

definition match_group :: "match_obj \<Rightarrow> nat \<Rightarrow> string" where
  "match_group mo g =
     (case (map_of (bounds mo) (Start g), map_of (bounds mo) (End g)) of
        (Some b, Some e) \<Rightarrow> take (e - b) (drop b (subject mo))
      | _ \<Rightarrow> [])"

definition re_match :: "atom list \<Rightarrow> string \<Rightarrow> match_obj option" where
  "re_match p s =
     (case rx p 0 s [] of
        None \<Rightarrow> None
      | Some (e, m) \<Rightarrow> Some \<lparr>subject = s, span_end = e, bounds = m\<rparr>)"

text \<open>
  \<^verbatim>\<open>re.sub(pattern, repl, text)\<close>: scan from the left; where the pattern matches, emit
  the replacement and go on after the match; elsewhere copy one character. Every pattern
  of the scripts starts with a literal character, so no match is empty; the branch for
  an empty match only makes the function total and copies the character.
\<close>

function re_sub :: "atom list \<Rightarrow> (match_obj \<Rightarrow> string) \<Rightarrow> string \<Rightarrow> string" where
  "re_sub p repl [] = []"
| "re_sub p repl (c # cs) =
     (case re_match p (c # cs) of
        None \<Rightarrow> c # re_sub p repl cs
      | Some mo \<Rightarrow>
          if span_end mo = 0 then c # re_sub p repl cs
          else repl mo @ re_sub p repl (drop (span_end mo) (c # cs)))"
  by pat_completeness auto
termination
  by (relation "measure (\<lambda>(p, repl, s). length s)") auto

text \<open>
  \<^verbatim>\<open>text.replace(old, new)\<close> for a non-empty \<open>old\<close>: every occurrence, from the left,
  without overlaps.
\<close>

function str_replace :: "string \<Rightarrow> string \<Rightarrow> string \<Rightarrow> string" where
  "str_replace old new [] = []"
| "str_replace old new (c # cs) =
     (if old \<noteq> [] \<and> prefix old (c # cs)
      then new @ str_replace old new (drop (length old) (c # cs))
      else c # str_replace old new cs)"
  by pat_completeness auto
termination
  by (relation "measure (\<lambda>(old, new, s). length s)") auto

section \<open>cleanup.py\<close>

text \<open>
  The four regular expressions of \<^verbatim>\<open>cleanup.py\<close>, in the order of the script:
  \<^verbatim>\<open>,\s*\n\s*user1\.address\);\<close>, the same for \<^verbatim>\<open>user2\<close>,
  \<^verbatim>\<open>,\s*user1\.address,\s*\n\s*user1\.address\)\<close>, and the same for \<^verbatim>\<open>user2\<close>.
  The two shapes are written once, with the user name \<open>u\<close> as a parameter; the
  script uses them at \<^verbatim>\<open>user1\<close> and \<^verbatim>\<open>user2\<close>.
\<close>

definition trailing_pat :: "string \<Rightarrow> atom list" where
  "trailing_pat u = [Lit '','', Rep Space 0, Lit [nl], Rep Space 0, Lit (u @ ''.address);'')]"

definition dup_pat :: "string \<Rightarrow> atom list" where
  "dup_pat u =
     [Lit '','', Rep Space 0, Lit (u @ ''.address,''), Rep Space 0, Lit [nl], Rep Space 0,
      Lit (u @ ''.address)'')]"

text \<open>The three literal replacements of \<^verbatim>\<open>cleanup.py\<close>: known-bad text and its known-good text.\<close>

definition bad1 :: string where
  "bad1 = ''pool.connect(user1).addLiquidity(0, LIQUIDITY_AMOUNT, 0, 0, deadline, user1.address,''
     @ [nl] @ ''        user1.address)''"

definition good1 :: string where
  "good1 = ''pool.connect(user1).addLiquidity(0, LIQUIDITY_AMOUNT, 0, 0, deadline, user1.address)''"

definition bad2 :: string where
  "bad2 = ''removeLiquidity(lpBalance, 0, 0, pastDeadline, user1.address,''
     @ [nl] @ ''        user1.address)''"

definition good2 :: string where
  "good2 = ''removeLiquidity(lpBalance, 0, 0, pastDeadline, user1.address)''"

definition bad3 :: string where
  "bad3 = ''removeLiquidity(lpBalance + 1n, 0, 0, deadline, user1.address,''
     @ [nl] @ ''        user1.address)''"

definition good3 :: string where
  "good3 = ''removeLiquidity(lpBalance + 1n, 0, 0, deadline, user1.address)''"

text \<open>
  The passes of \<^verbatim>\<open>cleanup.py\<close>: lines 7 and 8, lines 9 and 10 (the four together
  remove the duplicated argument), lines 13 to 21.
\<close>

definition drop_trailing :: "string \<Rightarrow> string" where
  "drop_trailing content =
     re_sub (trailing_pat ''user2'') (\<lambda>_. '');'')
       (re_sub (trailing_pat ''user1'') (\<lambda>_. '');'') content)"

definition collapse_dup :: "string \<Rightarrow> string" where
  "collapse_dup content =
     re_sub (dup_pat ''user2'') (\<lambda>_. '', user2.address)'')
       (re_sub (dup_pat ''user1'') (\<lambda>_. '', user1.address)'') content)"

definition replace_literals :: "string \<Rightarrow> string" where
  "replace_literals content =
     str_replace bad3 good3 (str_replace bad2 good2 (str_replace bad1 good1 content))"

definition remove_duplicates :: "string \<Rightarrow> string" where
  "remove_duplicates content = collapse_dup (drop_trailing content)"

definition cleanup :: "string \<Rightarrow> string" where
  "cleanup content = replace_literals (remove_duplicates content)"

section \<open>fix\_test.py\<close>

text \<open>
  \<^verbatim>\<open>(pool\.connect\((user[12])\)\.addLiquidity\(\s*[^,]+,\s*[^,]+,\s*[^,]+,\s*[^,]+,\s*[^)]+)(\s*\))\<close>
  and the same with \<^verbatim>\<open>removeLiquidity\<close> and one slot less. \<open>slot\<close> is \<^verbatim>\<open>\s*[^,]+,\<close>.
\<close>

definition slot :: "atom list" where
  "slot = [Rep Space 0, Rep (Not_char CHR '','') 1, Lit '','']"

definition call_pat :: "string \<Rightarrow> nat \<Rightarrow> atom list" where
  "call_pat meth n =
     [Open 1, Lit ''pool.connect('', Open 2, Lit ''user'', One (One_of ''12''), Close 2,
      Lit ('').'' @ meth @ ''('')]
     @ concat (replicate n slot)
     @ [Rep Space 0, Rep (Not_char CHR '')'') 1, Close 1, Open 3, Rep Space 0, Lit '')'', Close 3]"

definition pattern :: "atom list" where
  "pattern = call_pat ''addLiquidity'' 4"

definition pattern2 :: "atom list" where
  "pattern2 = call_pat ''removeLiquidity'' 3"

definition replace_func :: "match_obj \<Rightarrow> string" where
  "replace_func mo =
     (let user = match_group mo 2
      in match_group mo 1 @ '','' @ [nl] @ ''        '' @ user @ ''.address'' @ match_group mo 3)"

definition fix_test :: "string \<Rightarrow> string" where
  "fix_test content = re_sub pattern2 replace_func (re_sub pattern replace_func content)"

text \<open>
  The normalizer of the specification: duplicate removal, literal replacement, then
  insertion of the missing argument.
\<close>

definition normalize :: "string \<Rightarrow> string" where
  "normalize t = fix_test (cleanup t)"

section \<open>Notions used to state the properties\<close>

text \<open>
  An argument slot in the sense of the specification: a non-empty text "up to the next
  comma or closing parenthesis".
\<close>

definition is_slot :: "string \<Rightarrow> bool" where
  "is_slot a \<longleftrightarrow> a \<noteq> [] \<and> CHR '','' \<notin> set a \<and> CHR '')'' \<notin> set a"

text \<open>
  The text of a call of \<^verbatim>\<open>addLiquidity\<close> on \<^verbatim>\<open>pool.connect(u)\<close> with the given argument
  slots, separated by commas.
\<close>

fun join_commas :: "string list \<Rightarrow> string" where
  "join_commas [] = []"
| "join_commas [a] = a"
| "join_commas (a # b # bs) = a @ '','' @ join_commas (b # bs)"

definition add_call :: "string \<Rightarrow> string list \<Rightarrow> string" where
  "add_call u slots = ''pool.connect('' @ u @ '').addLiquidity('' @ join_commas slots @ '')''"

definition all_space :: "string \<Rightarrow> bool" where
  "all_space w \<longleftrightarrow> list_all is_space w"

text \<open>
  The end of a call whose last argument \<open>u.address\<close> is repeated on a continuation line
  (\<open>ws\<close> is the indentation), and the end with the argument once.
\<close>

definition dup_tail :: "string \<Rightarrow> string \<Rightarrow> string" where
  "dup_tail u ws = '', '' @ u @ ''.address,'' @ [nl] @ ws @ u @ ''.address)''"

definition single_tail :: "string \<Rightarrow> string" where
  "single_tail u = '', '' @ u @ ''.address)''"

text \<open>
  The scan of \<open>re_sub p repl\<close> over a text \<open>s\<close>: \<open>scan_reaches p repl s r out\<close> holds when
  the scan arrives at the rest \<open>r\<close> of \<open>s\<close> having produced \<open>out\<close>, that is, when \<open>r\<close>
  does not begin inside a match that started earlier.
\<close>

inductive scan_reaches ::
  "atom list \<Rightarrow> (match_obj \<Rightarrow> string) \<Rightarrow> string \<Rightarrow> string \<Rightarrow> string \<Rightarrow> bool"
  for p :: "atom list" and repl :: "match_obj \<Rightarrow> string" and s :: string where
  at_start: "scan_reaches p repl s s []"
| after_copy: "scan_reaches p repl s (c # cs) out \<Longrightarrow> re_match p (c # cs) = None \<Longrightarrow>
     scan_reaches p repl s cs (out @ [c])"
| after_match: "scan_reaches p repl s (c # cs) out \<Longrightarrow> re_match p (c # cs) = Some mo \<Longrightarrow>
     0 < span_end mo \<Longrightarrow>
     scan_reaches p repl s (drop (span_end mo) (c # cs)) (out @ repl mo)"

text \<open>
  The frame of a pass: \<open>rewritten hit s t\<close> holds when \<open>t\<close> arises from \<open>s\<close> by replacing
  disjoint pieces \<open>m\<close> by \<open>r\<close> with \<open>hit m r\<close>, from left to right, and copying every
  other character. For a regular expression a piece is a text the pattern matches, for a
  literal replacement it is the literal.
\<close>

inductive rewritten :: "(string \<Rightarrow> string \<Rightarrow> bool) \<Rightarrow> string \<Rightarrow> string \<Rightarrow> bool"
  for hit :: "string \<Rightarrow> string \<Rightarrow> bool" where
  rw_end: "rewritten hit [] []"
| rw_copy: "rewritten hit s t \<Longrightarrow> rewritten hit (c # s) (c # t)"
| rw_hit: "hit m r \<Longrightarrow> rewritten hit s t \<Longrightarrow> rewritten hit (m @ s) (r @ t)"

definition re_hit :: "atom list \<Rightarrow> (match_obj \<Rightarrow> string) \<Rightarrow> string \<Rightarrow> string \<Rightarrow> bool" where
  "re_hit p repl m r \<longleftrightarrow>
     (\<exists>rest mo. re_match p (m @ rest) = Some mo \<and> span_end mo = length m \<and> r = repl mo)"

definition lit_hit :: "string \<Rightarrow> string \<Rightarrow> string \<Rightarrow> string \<Rightarrow> bool" where
  "lit_hit old new m r \<longleftrightarrow> m = old \<and> r = new"

text \<open>
  The frame of a whole script: one pass after the other, each within its frame.
\<close>

fun passes :: "(string \<Rightarrow> string \<Rightarrow> bool) list \<Rightarrow> string \<Rightarrow> string \<Rightarrow> bool" where
  "passes [] s t \<longleftrightarrow> s = t"
| "passes (h # hs) s t \<longleftrightarrow> (\<exists>m. rewritten h s m \<and> passes hs m t)"

definition cleanup_hits :: "(string \<Rightarrow> string \<Rightarrow> bool) list" where
  "cleanup_hits =
     [re_hit (trailing_pat ''user1'') (\<lambda>_. '');''),
      re_hit (trailing_pat ''user2'') (\<lambda>_. '');''),
      re_hit (dup_pat ''user1'') (\<lambda>_. '', user1.address)''),
      re_hit (dup_pat ''user2'') (\<lambda>_. '', user2.address)''),
      lit_hit bad1 good1, lit_hit bad2 good2, lit_hit bad3 good3]"

definition fix_test_hits :: "(string \<Rightarrow> string \<Rightarrow> bool) list" where
  "fix_test_hits = [re_hit pattern replace_func, re_hit pattern2 replace_func]"

text \<open>
  Two texts are comparable when one is a prefix of the other. An occurrence of \<open>old\<close>
  cannot overlap a piece \<open>m\<close> of a text, whatever stands around \<open>m\<close>, when no proper
  end of \<open>old\<close> is comparable with \<open>m\<close> and \<open>old\<close> is comparable with no end of \<open>m\<close>.
\<close>

definition comparable :: "string \<Rightarrow> string \<Rightarrow> bool" where
  "comparable a b \<longleftrightarrow> prefix a b \<or> prefix b a"

definition enters_free :: "string \<Rightarrow> string \<Rightarrow> bool" where
  "enters_free old m \<longleftrightarrow> list_all (\<lambda>k. \<not> comparable (drop k old) m) [1..<length old]"

definition starts_free :: "string \<Rightarrow> string \<Rightarrow> bool" where
  "starts_free old m \<longleftrightarrow> list_all (\<lambda>j. \<not> comparable old (drop j m)) [0..<length m]"

text \<open>The last slot and the closing parenthesis of \<open>call_pat\<close>: \<^verbatim>\<open>\s*[^)]+)(\s*\))\<close>.\<close>

definition last_atoms :: "atom list" where
  "last_atoms = [Rep Space 0, Rep (Not_char CHR '')'') 1, Close 1, Open 3, Rep Space 0,
     Lit '')'', Close 3]"

text \<open>The second half of \<open>dup_pat\<close>, after its second comma.\<close>

definition dup_rest :: "string \<Rightarrow> atom list" where
  "dup_rest u = [Rep Space 0, Lit [nl], Rep Space 0, Lit (u @ ''.address)'')]"

text \<open>
  Which characters an atom can consume; used to find a character no match can cross.
\<close>

fun accepts :: "atom \<Rightarrow> char \<Rightarrow> bool" where
  "accepts (Lit l) c = (c \<in> set l)"
| "accepts (One cl) c = in_cls cl c"
| "accepts (Rep cl lo) c = in_cls cl c"
| "accepts (Open g) c = False"
| "accepts (Close g) c = False"

section \<open>The matcher\<close>

lemma backoff_None_iff:
  "backoff f lo n = None \<longleftrightarrow> (\<forall>k. lo \<le> k \<and> k \<le> n \<longrightarrow> f k = None)"
proof (induction n)
  case 0
  then show ?case by auto
next
  case (Suc n)
  show ?case
  proof (cases "Suc n < lo")
    case True
    then show ?thesis by auto
  next
    case False
    show ?thesis
    proof (cases "f (Suc n)")
      case None
      then show ?thesis using False Suc by (auto simp: le_Suc_eq)
    next
      case (Some r)
      then show ?thesis using False by (auto intro!: exI[of _ "Suc n"])
    qed
  qed
qed

lemma backoff_first: "lo \<le> n \<Longrightarrow> f n = Some r \<Longrightarrow> backoff f lo n = Some r"
  by (cases n) auto

lemma backoff_agree:
  assumes "\<And>k. lo \<le> k \<Longrightarrow> k \<le> n \<Longrightarrow> f k = R \<or> f k = None"
    and "lo \<le> k0" "k0 \<le> n" "f k0 = R"
  shows "backoff f lo n = R"
  using assms
proof (induction n)
  case 0
  then show ?case by auto
next
  case (Suc n)
  show ?case
  proof (cases "f (Suc n)")
    case (Some r)
    then have "R = Some r" using Suc.prems(1)[of "Suc n"] Suc.prems(2,3) by auto
    then show ?thesis using Some Suc.prems by auto
  next
    case None
    show ?thesis
    proof (cases "k0 = Suc n")
      case True
      then have "R = None" using None Suc.prems by simp
      moreover have "backoff f lo (Suc n) = None"
        unfolding backoff_None_iff using Suc.prems(1) \<open>R = None\<close> by auto
      ultimately show ?thesis by simp
    next
      case False
      then have "k0 \<le> n" using Suc.prems by simp
      then have "backoff f lo n = R" using Suc.IH Suc.prems by auto
      then show ?thesis using None Suc.prems \<open>k0 \<le> n\<close> by auto
    qed
  qed
qed

lemma backoff_cong_le:
  "(\<And>k. k \<le> n \<Longrightarrow> f k = g k) \<Longrightarrow> backoff f lo n = backoff g lo n"
proof (induction n)
  case 0
  then show ?case by simp
next
  case (Suc n)
  have "backoff f lo n = backoff g lo n" using Suc by simp
  moreover have "f (Suc n) = g (Suc n)" using Suc.prems by simp
  ultimately show ?case by (simp split: option.splits)
qed

lemma backoff_Some_D:
  "backoff f lo n = Some r \<Longrightarrow> \<exists>k. lo \<le> k \<and> k \<le> n \<and> f k = Some r"
proof (induction n)
  case 0
  then show ?case by (auto split: if_splits)
next
  case (Suc n)
  show ?case
  proof (cases "f (Suc n)")
    case None
    with Suc.prems have "\<not> Suc n < lo" "backoff f lo n = Some r"
      by (auto split: if_splits)
    with Suc.IH obtain k where "lo \<le> k" "k \<le> n" "f k = Some r" by blast
    then show ?thesis by (intro exI[of _ k]) simp
  next
    case (Some r')
    with Suc.prems have "\<not> Suc n < lo" "r' = r" by (auto split: if_splits)
    with Some show ?thesis by (intro exI[of _ "Suc n"]) simp
  qed
qed

lemma rx_offset: "rx as i s m = Some (e, m') \<Longrightarrow> i \<le> e \<and> e \<le> i + length s"
proof (induction as arbitrary: i s m)
  case Nil
  then show ?case by simp
next
  case (Cons a as)
  show ?case
  proof (cases a)
    case (Lit l)
    with Cons.prems have p: "prefix l s" and r: "rx as (i + length l) (drop (length l) s) m = Some (e, m')"
      by (auto split: if_splits)
    from p have "length l \<le> length s" by (rule prefix_length_le)
    with Cons.IH[OF r] show ?thesis by simp
  next
    case (One c)
    with Cons.prems obtain x xs where "s = x # xs" "rx as (Suc i) xs m = Some (e, m')"
      by (auto split: list.splits if_splits)
    with Cons.IH[of "Suc i" xs m] show ?thesis by simp
  next
    case (Rep c lo)
    with Cons.prems obtain k where k: "k \<le> length (takeWhile (in_cls c) s)"
      and r: "rx as (i + k) (drop k s) m = Some (e, m')"
      by (auto dest!: backoff_Some_D)
    have "k \<le> length s" using k length_takeWhile_le[of "in_cls c" s] by simp
    with Cons.IH[OF r] show ?thesis by simp
  next
    case (Open g)
    with Cons.prems Cons.IH[of i s "(Start g, i) # m"] show ?thesis by simp
  next
    case (Close g)
    with Cons.prems Cons.IH[of i s "(End g, i) # m"] show ?thesis by simp
  qed
qed


lemma takeWhile_barrier: "\<not> P c \<Longrightarrow> takeWhile P (a @ c # r) = takeWhile P a"
  by (induction a) auto

lemma dropWhile_barrier: "\<not> P c \<Longrightarrow> dropWhile P (a @ c # r) = dropWhile P a @ c # r"
  by (induction a) auto

lemma prefix_barrier: "c \<notin> set l \<Longrightarrow> prefix l (a @ c # r) \<longleftrightarrow> prefix l a"
proof
  assume c: "c \<notin> set l" and p: "prefix l (a @ c # r)"
  from p consider "prefix l a" | l' where "l = a @ l'" "prefix l' (c # r)"
    by (auto simp: prefix_append)
  then show "prefix l a"
  proof cases
    case 1
    then show ?thesis .
  next
    case 2
    then show ?thesis using c by (cases l') auto
  qed
next
  assume "prefix l a"
  then show "prefix l (a @ c # r)" by (rule prefix_prefix)
qed

lemma rx_barrier:
  "\<forall>a\<in>set as. \<not> accepts a c \<Longrightarrow> rx as i (t @ c # r) m = rx as i t m"
proof (induction as arbitrary: i t m)
  case Nil
  then show ?case by simp
next
  case (Cons a as)
  then have IH: "\<And>i t m. rx as i (t @ c # r) m = rx as i t m" by simp
  show ?case
  proof (cases a)
    case (Lit l)
    with Cons.prems have c: "c \<notin> set l" by simp
    show ?thesis
    proof (cases "prefix l t")
      case True
      then have "length l \<le> length t" by (rule prefix_length_le)
      then show ?thesis using True Lit c IH by (simp add: prefix_barrier)
    next
      case False
      then show ?thesis using Lit c by (simp add: prefix_barrier)
    qed
  next
    case (One cl)
    with Cons.prems have "\<not> in_cls cl c" by simp
    then show ?thesis using One IH by (cases t) auto
  next
    case (Rep cl lo)
    with Cons.prems have nc: "\<not> in_cls cl c" by simp
    have "backoff (\<lambda>k. rx as (i + k) (drop k (t @ c # r)) m) lo (length (takeWhile (in_cls cl) t))
        = backoff (\<lambda>k. rx as (i + k) (drop k t) m) lo (length (takeWhile (in_cls cl) t))"
    proof (rule backoff_cong_le)
      fix k assume "k \<le> length (takeWhile (in_cls cl) t)"
      then have "k \<le> length t" using length_takeWhile_le[of "in_cls cl" t] by simp
      then show "rx as (i + k) (drop k (t @ c # r)) m = rx as (i + k) (drop k t) m"
        using IH by simp
    qed
    then show ?thesis using Rep nc by (simp add: takeWhile_barrier)
  next
    case (Open g)
    then show ?thesis using IH by simp
  next
    case (Close g)
    then show ?thesis using IH by simp
  qed
qed

declare rx.simps(4) [simp del]

lemma drop_in_takeWhile:
  assumes "k < length (takeWhile P s)"
  shows "\<exists>x xs. drop k s = x # xs \<and> P x"
proof -
  have ks: "k < length s" using assms length_takeWhile_le[of P s] by simp
  have "P (takeWhile P s ! k)" using assms by (meson nth_mem set_takeWhileD)
  then have "P (s ! k)" using assms by (simp add: takeWhile_nth)
  moreover have "drop k s = s ! k # drop (Suc k) s" using ks by (simp add: Cons_nth_drop_Suc)
  ultimately show ?thesis by blast
qed

lemma rx_rep_lit:
  assumes "\<not> in_cls cl c"
  shows "rx (Rep cl lo # Lit (c # l) # as) i s m =
     (if length (takeWhile (in_cls cl) s) < lo then None
      else rx (Lit (c # l) # as) (i + length (takeWhile (in_cls cl) s)) (dropWhile (in_cls cl) s) m)"
proof -
  let ?n = "length (takeWhile (in_cls cl) s)"
  let ?f = "\<lambda>k. rx (Lit (c # l) # as) (i + k) (drop k s) m"
  have none: "?f k = None" if "k < ?n" for k
  proof -
    from drop_in_takeWhile[OF that] obtain x xs where "drop k s = x # xs" "in_cls cl x" by blast
    with assms show ?thesis by auto
  qed
  have start: "rx (Rep cl lo # Lit (c # l) # as) i s m = backoff ?f lo ?n"
    by (simp only: rx.simps)
  show ?thesis
  proof (cases "?n < lo")
    case True
    then have "backoff ?f lo ?n = None" unfolding backoff_None_iff by auto
    with True start show ?thesis by (simp only: if_True)
  next
    case False
    have "backoff ?f lo ?n = ?f ?n"
    proof (rule backoff_agree[where ?k0.0 = ?n])
      fix k assume "lo \<le> k" "k \<le> ?n"
      then show "?f k = ?f ?n \<or> ?f k = None" using none[of k] by (cases "k = ?n") auto
    qed (use False in auto)
    with False start show ?thesis by (simp only: if_False dropWhile_eq_drop)
  qed
qed


lemma takeWhile_drop_le:
  "j \<le> length (takeWhile P s) \<Longrightarrow>
     takeWhile P (drop j s) = drop j (takeWhile P s) \<and> dropWhile P (drop j s) = dropWhile P s"
  by (induction s arbitrary: j) (auto simp: drop_Cons split: nat.splits)

lemma nl_space: "is_space nl"
  by (simp add: is_space_def)

lemma rx_ws_nl_ws:
  assumes "\<not> is_space c"
  shows "rx (Rep Space 0 # Lit [nl] # Rep Space 0 # Lit (c # l) # as) i s m =
     (if nl \<in> set (takeWhile is_space s)
      then rx (Lit (c # l) # as) (i + length (takeWhile is_space s)) (dropWhile is_space s) m
      else None)"
proof -
  let ?w = "takeWhile is_space s"
  let ?n = "length ?w"
  let ?d = "dropWhile is_space s"
  let ?R = "rx (Lit (c # l) # as) (i + ?n) ?d m"
  let ?f = "\<lambda>k. rx (Lit [nl] # Rep Space 0 # Lit (c # l) # as) (i + k) (drop k s) m"
  have sp: "in_cls Space = is_space" by (rule ext) simp
  have nc: "\<not> in_cls Space c" using assms by simp
  have start: "rx (Rep Space 0 # Lit [nl] # Rep Space 0 # Lit (c # l) # as) i s m
      = backoff ?f 0 ?n"
    by (simp only: rx.simps sp)
  have at_n: "?f ?n = None"
  proof -
    have "\<not> prefix [nl] ?d"
    proof
      assume "prefix [nl] ?d"
      then obtain zs where zs: "?d = nl # zs" by (auto simp: prefix_def)
      then have "?d \<noteq> []" "hd ?d = nl" by simp_all
      then show False using hd_dropWhile[of is_space s] nl_space by metis
    qed
    then show ?thesis by (simp add: dropWhile_eq_drop)
  qed
  have below: "?f k = (if s ! k = nl then ?R else None)" if "k < ?n" for k
  proof -
    have ks: "k < length s" using that length_takeWhile_le[of is_space s] by simp
    have d: "drop k s = s ! k # drop (Suc k) s" using ks by (simp add: Cons_nth_drop_Suc)
    have tl: "takeWhile is_space (drop (Suc k) s) = drop (Suc k) ?w"
      "dropWhile is_space (drop (Suc k) s) = ?d"
      using takeWhile_drop_le[of "Suc k" is_space s] that by simp_all
    have off: "Suc (i + k) + length (drop (Suc k) ?w) = i + ?n" using that by simp
    have "rx (Rep Space 0 # Lit (c # l) # as) (Suc (i + k)) (drop (Suc k) s) m = ?R"
      unfolding rx_rep_lit[OF nc] sp tl off by simp
    then show ?thesis unfolding d by simp
  qed
  show ?thesis
  proof (cases "nl \<in> set ?w")
    case True
    then obtain k0 where k0: "k0 < ?n" "?w ! k0 = nl" by (auto simp: in_set_conv_nth)
    then have "s ! k0 = nl" by (simp add: takeWhile_nth)
    then have fk0: "?f k0 = ?R" using below[OF k0(1)] by simp
    have "backoff ?f 0 ?n = ?R"
    proof (rule backoff_agree[where ?k0.0 = k0])
      fix k assume "0 \<le> k" "k \<le> ?n"
      then show "?f k = ?R \<or> ?f k = None"
        using below[of k] at_n by (cases "k = ?n") (auto split: if_splits)
    qed (use k0 fk0 in auto)
    with True start show ?thesis by (simp only: if_True)
  next
    case False
    have "?f k = None" if "k \<le> ?n" for k
    proof (cases "k = ?n")
      case True
      then show ?thesis using at_n by simp
    next
      case F: False
      then have k: "k < ?n" using that by simp
      have "s ! k \<noteq> nl"
      proof
        assume "s ! k = nl"
        then have "?w ! k = nl" using k by (simp add: takeWhile_nth)
        then show False using False k by (metis nth_mem)
      qed
      then show ?thesis using below[OF k] by simp
    qed
    then have "backoff ?f 0 ?n = None" unfolding backoff_None_iff by blast
    with False start show ?thesis by (simp only: if_False)
  qed
qed

lemma comma_not_space: "\<not> is_space CHR '',''"
  by (simp add: is_space_def)

lemma paren_not_space: "\<not> is_space CHR '')''"
  by (simp add: is_space_def)

lemma rx_slot:
  assumes "a \<noteq> []" "CHR '','' \<notin> set a"
  shows "rx (slot @ as) i (a @ CHR '','' # r) m = rx as (Suc (i + length a)) r m"
proof -
  let ?s = "a @ CHR '','' # r"
  let ?n = "length (takeWhile is_space ?s)"
  let ?R = "rx as (Suc (i + length a)) r m"
  let ?f = "\<lambda>k. rx (Rep (Not_char CHR '','') 1 # Lit '','' # as) (i + k) (drop k ?s) m"
  have sp: "in_cls Space = is_space" by (rule ext) simp
  have start: "rx (slot @ as) i ?s m = backoff ?f 0 ?n"
    by (simp only: slot_def append_Cons append_Nil rx.simps sp)
  have n: "?n \<le> length a"
    using takeWhile_barrier[of is_space "CHR '',''" a r] comma_not_space
      length_takeWhile_le[of is_space a] by simp
  have f: "?f k = (if k < length a then ?R else None)" if "k \<le> length a" for k
  proof -
    have all: "\<forall>y\<in>set (drop k a). in_cls (Not_char CHR '','') y"
      using assms(2) by (auto dest: in_set_dropD)
    have tw: "takeWhile (in_cls (Not_char CHR '','')) (drop k a @ CHR '','' # r) = drop k a"
      using all by (simp add: takeWhile_tail)
    have dw: "dropWhile (in_cls (Not_char CHR '','')) (drop k a @ CHR '','' # r) = CHR '','' # r"
      using all by (simp add: dropWhile_append2)
    have d: "drop k ?s = drop k a @ CHR '','' # r" using that by simp
    show ?thesis
      unfolding d using that
      by (subst rx_rep_lit) (simp_all add: tw dw)
  qed
  have "backoff ?f 0 ?n = ?R"
  proof (rule backoff_agree[where ?k0.0 = 0])
    fix k assume "0 \<le> k" "k \<le> ?n"
    then show "?f k = ?R \<or> ?f k = None" using f[of k] n by auto
  next
    show "?f 0 = ?R" using f[of 0] assms(1) by simp
  qed simp_all
  with start show ?thesis by simp
qed

lemma rx_last_slot:
  assumes "a \<noteq> []" "CHR '')'' \<notin> set a"
  shows "rx [Rep Space 0, Rep (Not_char CHR '')'') 1, Close 1, Open 3, Rep Space 0, Lit '')'',
             Close 3] i (a @ CHR '')'' # r) m =
     Some (Suc (i + length a),
       (End 3, Suc (i + length a)) # (Start 3, i + length a) # (End 1, i + length a) # m)"
proof -
  let ?s = "a @ CHR '')'' # r"
  let ?n = "length (takeWhile is_space ?s)"
  let ?tail = "[Close 1, Open 3, Rep Space 0, Lit '')'', Close 3]"
  let ?R = "(Suc (i + length a),
       (End 3, Suc (i + length a)) # (Start 3, i + length a) # (End 1, i + length a) # m)"
  let ?f = "\<lambda>k. rx (Rep (Not_char CHR '')'') 1 # ?tail) (i + k) (drop k ?s) m"
  have sp: "in_cls Space = is_space" by (rule ext) simp
  have start: "rx (Rep Space 0 # Rep (Not_char CHR '')'') 1 # ?tail) i ?s m = backoff ?f 0 ?n"
    by (simp only: rx.simps sp)
  have n: "?n \<le> length a"
    using takeWhile_barrier[of is_space "CHR '')''" a r] paren_not_space
      length_takeWhile_le[of is_space a] by simp
  have tail: "rx ?tail j (CHR '')'' # r) m =
      Some (Suc j, (End 3, Suc j) # (Start 3, j) # (End 1, j) # m)" for j
    using paren_not_space by (simp add: rx_rep_lit)
  have f: "?f k = (if k < length a then Some ?R else None)" if "k \<le> length a" for k
  proof -
    have all: "\<forall>y\<in>set (drop k a). in_cls (Not_char CHR '')'') y"
      using assms(2) by (auto dest: in_set_dropD)
    have tw: "takeWhile (in_cls (Not_char CHR '')'')) (drop k a @ CHR '')'' # r) = drop k a"
      using all by (simp add: takeWhile_tail)
    have d: "drop k ?s = drop k a @ CHR '')'' # r" using that by simp
    let ?g = "\<lambda>j. rx ?tail (i + k + j) (drop j (drop k a @ CHR '')'' # r)) m"
    have fk: "?f k = backoff ?g 1 (length a - k)"
      unfolding d by (simp only: rx.simps tw length_drop)
    show ?thesis
    proof (cases "k < length a")
      case True
      have "?g (length a - k) = Some ?R" using True tail[of "i + length a"] by simp
      then have "backoff ?g 1 (length a - k) = Some ?R"
        using True by (intro backoff_first) simp_all
      with fk True show ?thesis by simp
    next
      case False
      then have "length a - k = 0" by simp
      then have "backoff ?g 1 (length a - k) = None" by simp
      with fk False show ?thesis by simp
    qed
  qed
  have "backoff ?f 0 ?n = Some ?R"
  proof (rule backoff_agree[where ?k0.0 = 0])
    fix k assume "0 \<le> k" "k \<le> ?n"
    then show "?f k = Some ?R \<or> ?f k = None" using f[of k] n by auto
  next
    show "?f 0 = Some ?R" using f[of 0] assms(1) by simp
  qed simp_all
  with start show ?thesis by simp
qed

lemma re_sub_skip: "rx p 0 (c # s) [] = None \<Longrightarrow> re_sub p repl (c # s) = c # re_sub p repl s"
  by (simp add: re_match_def)

lemma re_sub_skip_all:
  "(\<And>v. v \<noteq> [] \<Longrightarrow> suffix v a \<Longrightarrow> rx p 0 (v @ r) [] = None) \<Longrightarrow>
     re_sub p repl (a @ r) = a @ re_sub p repl r"
proof (induction a)
  case Nil
  then show ?case by simp
next
  case (Cons c a)
  have "rx p 0 (c # a @ r) [] = None" using Cons.prems[of "c # a"] by simp
  moreover have "re_sub p repl (a @ r) = a @ re_sub p repl r"
    using Cons.prems by (intro Cons.IH) (simp add: suffix_ConsI)
  ultimately show ?case by (simp add: re_match_def)
qed

lemma re_sub_hit:
  assumes "rx p 0 (M @ r) [] = Some (length M, m)" "M \<noteq> []"
  shows "re_sub p repl (M @ r) =
     repl \<lparr>subject = M @ r, span_end = length M, bounds = m\<rparr> @ re_sub p repl r"
proof -
  obtain c cs where M: "M = c # cs" using assms(2) by (cases M) auto
  show ?thesis using assms(1) unfolding M by (simp add: re_match_def)
qed

lemma re_sub_append:
  assumes "\<And>v. v \<noteq> [] \<Longrightarrow> suffix v a \<Longrightarrow> rx p 0 (v @ r) [] = rx p 0 v []"
  shows "re_sub p (\<lambda>_. r0) (a @ r) = re_sub p (\<lambda>_. r0) a @ re_sub p (\<lambda>_. r0) r"
  using assms
proof (induction "length a" arbitrary: a rule: less_induct)
  case less
  show ?case
  proof (cases a)
    case Nil
    then show ?thesis by simp
  next
    case (Cons c cs)
    have same: "rx p 0 (c # cs @ r) [] = rx p 0 (c # cs) []"
      using less.prems[of a] Cons by simp
    have tail: "re_sub p (\<lambda>_. r0) (cs @ r) = re_sub p (\<lambda>_. r0) cs @ re_sub p (\<lambda>_. r0) r"
      using Cons less.prems by (intro less.hyps) (simp_all add: suffix_ConsI)
    show ?thesis
    proof (cases "rx p 0 (c # cs) []")
      case None
      then show ?thesis using same tail Cons by (simp add: re_match_def)
    next
      case (Some em)
      obtain e m where em: "em = (e, m)" by (cases em)
      show ?thesis
      proof (cases "e = 0")
        case True
        then show ?thesis using Some em same tail Cons by (simp add: re_match_def)
      next
        case False
        have le: "e \<le> length (c # cs)" using rx_offset[of p 0 "c # cs" "[]" e m] Some em by simp
        have "re_sub p (\<lambda>_. r0) (drop e a @ r)
            = re_sub p (\<lambda>_. r0) (drop e a) @ re_sub p (\<lambda>_. r0) r"
        proof (rule less.hyps)
          show "length (drop e a) < length a" using False Cons by simp
          fix v assume "v \<noteq> []" "suffix v (drop e a)"
          then show "rx p 0 (v @ r) [] = rx p 0 v []"
            using less.prems[of v] suffix_drop[of e a] suffix_order.trans by blast
        qed
        moreover have "drop e ((c # cs) @ r) = drop e (c # cs) @ r"
          using le by (cases e) simp_all
        ultimately show ?thesis using Some em same False Cons by (simp add: re_match_def)
      qed
    qed
  qed
qed

lemma scan_reaches_sub:
  "scan_reaches p repl s r out \<Longrightarrow> re_sub p repl s = out @ re_sub p repl r"
proof (induction rule: scan_reaches.induct)
  case at_start
  show ?case by simp
next
  case (after_copy c cs out)
  then show ?case by simp
next
  case (after_match c cs out mo)
  then show ?case by simp
qed

declare re_sub.simps(2) [simp del]

section \<open>The substitutions of cleanup.py\<close>

lemma user_cases:
  assumes "u \<in> {''user1'', ''user2''}"
  obtains "u = ''user1''" | "u = ''user2''"
  using assms by auto

lemma u_not_space: "\<not> is_space CHR ''u''"
  by (simp add: is_space_def)

lemma all_space_no_comma: "all_space w \<Longrightarrow> CHR '','' \<notin> set w"
  using comma_not_space by (auto simp: all_space_def list_all_iff)

lemma takeWhile_all_space:
  "all_space w \<Longrightarrow> \<not> is_space c \<Longrightarrow> takeWhile is_space (w @ c # r) = w"
  by (simp add: all_space_def list_all_iff takeWhile_tail)

lemma dropWhile_all_space:
  "all_space w \<Longrightarrow> \<not> is_space c \<Longrightarrow> dropWhile is_space (w @ c # r) = c # r"
  by (simp add: all_space_def list_all_iff dropWhile_append2)

lemma all_space_append: "all_space (a @ b) \<longleftrightarrow> all_space a \<and> all_space b"
  by (simp add: all_space_def)

lemma all_space_Cons: "all_space (c # w) \<longleftrightarrow> is_space c \<and> all_space w"
  by (simp add: all_space_def)

lemma all_space_Nil: "all_space []"
  by (simp add: all_space_def)

subsection \<open>The patterns for a trailing address\<close>

lemma trailing_local:
  assumes "u \<in> {''user1'', ''user2''}" "v \<noteq> []"
  shows "rx (trailing_pat u) 0 (v @ CHR '','' # r) [] = rx (trailing_pat u) 0 v []"
proof -
  obtain x v' where v: "v = x # v'" using assms(2) by (cases v) auto
  let ?rest = "[Rep Space 0, Lit [nl], Rep Space 0, Lit (u @ ''.address);'')]"
  have "\<forall>a\<in>set ?rest. \<not> accepts a CHR '',''"
    using assms(1) comma_not_space by auto
  then have bar: "rx ?rest i (v' @ CHR '','' # r) m = rx ?rest i v' m" for i m
    by (rule rx_barrier)
  have step: "rx (trailing_pat u) 0 (x # t) [] =
      (if x = CHR '','' then rx ?rest 1 t [] else None)" for t
    unfolding trailing_pat_def by simp
  show ?thesis unfolding v append_Cons step by (simp only: bar)
qed

lemma trailing_hit:
  assumes "u \<in> {''user1'', ''user2''}" "all_space w1" "all_space w2"
  shows "rx (trailing_pat u) 0 (('','' @ w1 @ [nl] @ w2 @ u @ ''.address);'') @ post) [] =
     Some (length ('','' @ w1 @ [nl] @ w2 @ u @ ''.address);''), [])"
proof -
  have w: "all_space (w1 @ nl # w2)" using assms nl_space by (simp add: all_space_append all_space_Cons)
  have tw: "takeWhile is_space ((w1 @ nl # w2) @ CHR ''u'' # r) = w1 @ nl # w2" for r
    using w u_not_space by (rule takeWhile_all_space)
  have dw: "dropWhile is_space ((w1 @ nl # w2) @ CHR ''u'' # r) = CHR ''u'' # r" for r
    using w u_not_space by (rule dropWhile_all_space)
  from assms(1) show ?thesis
  proof (cases rule: user_cases)
    case 1
    show ?thesis unfolding 1 trailing_pat_def
      using tw[of "''ser1.address);'' @ post"] dw[of "''ser1.address);'' @ post"]
      by (simp add: rx_ws_nl_ws u_not_space)
  next
    case 2
    show ?thesis unfolding 2 trailing_pat_def
      using tw[of "''ser2.address);'' @ post"] dw[of "''ser2.address);'' @ post"]
      by (simp add: rx_ws_nl_ws u_not_space)
  qed
qed



subsection \<open>The patterns for a repeated address\<close>

lemma space_space: "is_space CHR '' ''"
  by (simp add: is_space_def)

lemma append_snoc_unique:
  "c \<notin> set l \<Longrightarrow> d @ c # z = l @ [c] \<Longrightarrow> d = l \<and> z = []"
proof (induction d arbitrary: l)
  case Nil
  then show ?case by (cases l) auto
next
  case (Cons x d)
  then show ?case by (cases l) auto
qed


lemma prefix_snoc_barrier:
  assumes "c \<notin> set l"
  shows "prefix (l @ [c]) (d @ c # r) \<longleftrightarrow> prefix (l @ [c]) d \<or> d = l"
  using assms
proof (induction d arbitrary: l)
  case Nil
  then show ?case by (cases l) auto
next
  case (Cons x d)
  show ?case
  proof (cases l)
    case Nil
    then show ?thesis by simp
  next
    case (Cons y l')
    then have "c \<notin> set l'" using Cons.prems by simp
    from Cons.IH[OF this] show ?thesis unfolding Cons by auto
  qed
qed



lemma dup_rest_closed:
  assumes "u \<in> {''user1'', ''user2''}"
  shows "rx (dup_rest u) i t m =
     (if nl \<in> set (takeWhile is_space t)
      then rx [Lit (u @ ''.address)'')] (i + length (takeWhile is_space t)) (dropWhile is_space t) m
      else None)"
  using assms unfolding dup_rest_def
  by (cases rule: user_cases) (simp_all only: append_Cons append_Nil rx_ws_nl_ws[OF u_not_space])

lemma dup_rest_barrier:
  assumes "u \<in> {''user1'', ''user2''}"
  shows "rx (dup_rest u) i (t @ CHR '','' # r) m = rx (dup_rest u) i t m"
proof (rule rx_barrier)
  show "\<forall>a\<in>set (dup_rest u). \<not> accepts a CHR '',''"
    using assms comma_not_space by (auto simp: dup_rest_def)
qed

lemma dup_step:
  "rx (dup_pat u) 0 (x # t) [] =
     (if x = CHR '','' then rx (Rep Space 0 # Lit (u @ ''.address,'') # dup_rest u) 1 t [] else None)"
  by (simp add: dup_pat_def dup_rest_def)

lemma dup_after_comma:
  assumes "u \<in> {''user1'', ''user2''}"
  shows "rx (Rep Space 0 # Lit (u @ ''.address,'') # dup_rest u) i t m =
     rx (Lit (u @ ''.address,'') # dup_rest u) (i + length (takeWhile is_space t))
       (dropWhile is_space t) m"
proof -
  have sp: "in_cls Space = is_space" by (rule ext) simp
  have nc: "\<not> in_cls Space CHR ''u''" using u_not_space by simp
  from assms show ?thesis
    by (cases rule: user_cases)
      (simp_all only: append_Cons append_Nil rx_rep_lit[OF nc] sp not_less_zero if_False)
qed

lemma dup_local:
  assumes u: "u \<in> {''user1'', ''user2''}" and v: "v \<noteq> []"
    and r: "nl \<notin> set (takeWhile is_space r)"
  shows "rx (dup_pat u) 0 (v @ CHR '','' # r) [] = rx (dup_pat u) 0 v []"
proof -
  obtain x v' where vc: "v = x # v'" using v by (cases v) auto
  let ?l = "u @ ''.address''"
  let ?L = "u @ ''.address,''"
  let ?d = "dropWhile is_space v'"
  let ?j = "1 + length (takeWhile is_space v')"
  have L: "?L = ?l @ [CHR '','']" by simp
  have nocomma: "CHR '','' \<notin> set ?l" using u by auto
  have lhs: "rx (Rep Space 0 # Lit ?L # dup_rest u) 1 (v' @ CHR '','' # r) [] =
      rx (Lit ?L # dup_rest u) ?j (?d @ CHR '','' # r) []"
    unfolding dup_after_comma[OF u]
    by (simp only: takeWhile_barrier[where P=is_space, OF comma_not_space]
      dropWhile_barrier[where P=is_space, OF comma_not_space])
  have rhs: "rx (Rep Space 0 # Lit ?L # dup_rest u) 1 v' [] = rx (Lit ?L # dup_rest u) ?j ?d []"
    unfolding dup_after_comma[OF u] by simp
  have "rx (Lit ?L # dup_rest u) ?j (?d @ CHR '','' # r) [] = rx (Lit ?L # dup_rest u) ?j ?d []"
  proof (cases "prefix ?L ?d")
    case True
    then have "length ?L \<le> length ?d" by (rule prefix_length_le)
    then have "drop (length ?L) (?d @ CHR '','' # r) = drop (length ?L) ?d @ CHR '','' # r"
      by simp
    moreover have "prefix ?L (?d @ CHR '','' # r)" using True by (rule prefix_prefix)
    ultimately show ?thesis using True by (simp only: rx.simps if_True dup_rest_barrier[OF u])
  next
    case False
    show ?thesis
    proof (cases "?d = ?l")
      case True
      have p: "prefix ?L (?d @ CHR '','' # r)" unfolding L True by simp
      have "drop (length ?L) (?d @ CHR '','' # r) = r" unfolding True by simp
      then have "rx (Lit ?L # dup_rest u) ?j (?d @ CHR '','' # r) [] = None"
        using p r by (simp only: rx.simps if_True dup_rest_closed[OF u] if_False)
      then show ?thesis using False by (simp only: rx.simps if_False)
    next
      case F: False
      have "\<not> prefix ?L (?d @ CHR '','' # r)"
        using False F unfolding L prefix_snoc_barrier[OF nocomma] by simp
      then show ?thesis using False by (simp only: rx.simps if_False)
    qed
  qed
  then show ?thesis unfolding vc append_Cons dup_step lhs rhs by simp
qed

lemma dup_hit:
  assumes "u \<in> {''user1'', ''user2''}" "all_space ws"
  shows "rx (dup_pat u) 0 (dup_tail u ws @ post) [] = Some (length (dup_tail u ws), [])"
proof -
  have w: "all_space (nl # ws)" using assms nl_space by (simp add: all_space_Cons)
  have tw: "takeWhile is_space ((nl # ws) @ CHR ''u'' # r) = nl # ws" for r
    using w u_not_space by (rule takeWhile_all_space)
  have dw: "dropWhile is_space ((nl # ws) @ CHR ''u'' # r) = CHR ''u'' # r" for r
    using w u_not_space by (rule dropWhile_all_space)
  have sp: "in_cls Space = is_space" by (rule ext) simp
  from assms(1) show ?thesis
  proof (cases rule: user_cases)
    case 1
    show ?thesis unfolding 1 dup_pat_def dup_tail_def
      using tw[of "''ser1.address)'' @ post"] dw[of "''ser1.address)'' @ post"]
      by (simp add: rx_ws_nl_ws rx_rep_lit u_not_space space_space)
  next
    case 2
    show ?thesis unfolding 2 dup_pat_def dup_tail_def
      using tw[of "''ser2.address)'' @ post"] dw[of "''ser2.address)'' @ post"]
      by (simp add: rx_ws_nl_ws rx_rep_lit u_not_space space_space)
  qed
qed

lemma dup_not_comma: "x \<noteq> CHR '','' \<Longrightarrow> rx (dup_pat u) 0 (x # t) [] = None"
  by (simp add: dup_step)

lemma dup_skip_nocomma:
  assumes "CHR '','' \<notin> set a"
  shows "re_sub (dup_pat u) repl (a @ r) = a @ re_sub (dup_pat u) repl r"
proof (rule re_sub_skip_all)
  fix v :: string assume v: "v \<noteq> []" "suffix v a"
  then obtain x v' where vc: "v = x # v'" by (cases v) auto
  have "x \<in> set a" using v(2) vc by (auto simp: suffix_def)
  then have "x \<noteq> CHR '',''" using assms by auto
  then show "rx (dup_pat u) 0 (v @ r) [] = None" unfolding vc by (simp add: dup_not_comma)
qed

lemma dup_miss_other:
  assumes "u \<in> {''user1'', ''user2''}" "u' \<in> {''user1'', ''user2''}" "u \<noteq> u'"
  shows "rx (dup_pat u') 0 (CHR '','' # CHR '' '' # u @ z) [] = None"
  unfolding dup_step dup_after_comma[OF assms(2)]
  using assms by (auto simp: space_space u_not_space)

lemma dup_miss_close:
  assumes "u \<in> {''user1'', ''user2''}" "u' \<in> {''user1'', ''user2''}" "all_space w"
  shows "rx (dup_pat u') 0 (CHR '','' # w @ u @ ''.address)'' @ z) [] = None"
proof -
  obtain u0 where u0: "u = CHR ''u'' # u0" using assms(1) by auto
  have tw: "takeWhile is_space (w @ u @ ''.address)'' @ z) = w"
    unfolding u0 using takeWhile_all_space[OF assms(3) u_not_space] by simp
  have dw: "dropWhile is_space (w @ u @ ''.address)'' @ z) = u @ ''.address)'' @ z"
    unfolding u0 using dropWhile_all_space[OF assms(3) u_not_space] by simp
  show ?thesis
    unfolding dup_step dup_after_comma[OF assms(2)] tw dw
    using assms(1,2) by auto
qed

lemma dup_frame_single:
  assumes "u \<in> {''user1'', ''user2''}" "u' \<in> {''user1'', ''user2''}"
  shows "re_sub (dup_pat u') (\<lambda>_. r0) (pre @ single_tail u @ post) =
     re_sub (dup_pat u') (\<lambda>_. r0) pre @ single_tail u @ re_sub (dup_pat u') (\<lambda>_. r0) post"
proof -
  let ?sub = "re_sub (dup_pat u') (\<lambda>_. r0)"
  let ?a = "CHR '' '' # u @ ''.address)''"
  have st: "single_tail u @ post = CHR '','' # ?a @ post" by (simp add: single_tail_def)
  have nonl: "nl \<notin> set (takeWhile is_space (?a @ post))"
    using assms(1) by (auto simp: space_space u_not_space)
  have "?sub (pre @ CHR '','' # ?a @ post) = ?sub pre @ ?sub (CHR '','' # ?a @ post)"
  proof (rule re_sub_append)
    fix v :: string assume "v \<noteq> []"
    then show "rx (dup_pat u') 0 (v @ CHR '','' # ?a @ post) [] = rx (dup_pat u') 0 v []"
      using dup_local[OF assms(2) _ nonl] by simp
  qed
  moreover have "rx (dup_pat u') 0 (CHR '','' # ?a @ post) [] = None"
    using dup_miss_close[OF assms, of "'' ''" post] by (simp add: all_space_def space_space)
  then have "?sub (CHR '','' # ?a @ post) = CHR '','' # ?sub (?a @ post)"
    by (rule re_sub_skip)
  moreover have "?sub (?a @ post) = ?a @ ?sub post"
    using assms(1) by (intro dup_skip_nocomma) auto
  ultimately show ?thesis by (simp add: single_tail_def)
qed

lemma dup_frame_dup:
  assumes "u \<in> {''user1'', ''user2''}" "u' \<in> {''user1'', ''user2''}" "u \<noteq> u'"
    "all_space ws"
  shows "re_sub (dup_pat u') (\<lambda>_. r0) (pre @ dup_tail u ws @ post) =
     re_sub (dup_pat u') (\<lambda>_. r0) pre @ dup_tail u ws @ re_sub (dup_pat u') (\<lambda>_. r0) post"
proof -
  let ?sub = "re_sub (dup_pat u') (\<lambda>_. r0)"
  let ?a = "CHR '' '' # u @ ''.address''"
  let ?b = "nl # ws @ u @ ''.address)''"
  have dt: "dup_tail u ws @ post = CHR '','' # ?a @ CHR '','' # ?b @ post"
    by (simp add: dup_tail_def)
  have nonl: "nl \<notin> set (takeWhile is_space (?a @ CHR '','' # ?b @ post))"
    using assms(1) by (auto simp: space_space u_not_space)
  have "?sub (pre @ CHR '','' # ?a @ CHR '','' # ?b @ post)
      = ?sub pre @ ?sub (CHR '','' # ?a @ CHR '','' # ?b @ post)"
  proof (rule re_sub_append)
    fix v :: string assume "v \<noteq> []"
    then show "rx (dup_pat u') 0 (v @ CHR '','' # ?a @ CHR '','' # ?b @ post) []
        = rx (dup_pat u') 0 v []"
      using dup_local[OF assms(2) _ nonl] by simp
  qed
  moreover have "rx (dup_pat u') 0 (CHR '','' # ?a @ CHR '','' # ?b @ post) [] = None"
    using dup_miss_other[OF assms(1,2,3)] by simp
  then have "?sub (CHR '','' # ?a @ CHR '','' # ?b @ post)
      = CHR '','' # ?sub (?a @ CHR '','' # ?b @ post)"
    by (rule re_sub_skip)
  moreover have "?sub (?a @ CHR '','' # ?b @ post) = ?a @ ?sub (CHR '','' # ?b @ post)"
    using assms(1) by (intro dup_skip_nocomma) auto
  moreover have "rx (dup_pat u') 0 (CHR '','' # ?b @ post) [] = None"
    using dup_miss_close[OF assms(1,2), of "nl # ws" post] assms(4) nl_space
    by (simp add: all_space_Cons)
  then have "?sub (CHR '','' # ?b @ post) = CHR '','' # ?sub (?b @ post)"
    by (rule re_sub_skip)
  moreover have "?sub (?b @ post) = ?b @ ?sub post"
    using assms(1) all_space_no_comma[OF assms(4)] by (intro dup_skip_nocomma) auto
  ultimately show ?thesis by (simp add: dup_tail_def)
qed

lemma dup_collapse:
  assumes "u \<in> {''user1'', ''user2''}" "all_space ws"
  shows "re_sub (dup_pat u) (\<lambda>_. r0) (pre @ dup_tail u ws @ post) =
     re_sub (dup_pat u) (\<lambda>_. r0) pre @ r0 @ re_sub (dup_pat u) (\<lambda>_. r0) post"
proof -
  let ?sub = "re_sub (dup_pat u) (\<lambda>_. r0)"
  let ?r = "CHR '' '' # u @ ''.address,'' @ [nl] @ ws @ u @ ''.address)'' @ post"
  have dt: "dup_tail u ws @ post = CHR '','' # ?r" by (simp add: dup_tail_def)
  have nonl: "nl \<notin> set (takeWhile is_space ?r)"
    using assms(1) by (auto simp: space_space u_not_space)
  have "?sub (pre @ dup_tail u ws @ post) = ?sub pre @ ?sub (dup_tail u ws @ post)"
  proof (rule re_sub_append)
    fix v :: string assume "v \<noteq> []"
    then show "rx (dup_pat u) 0 (v @ dup_tail u ws @ post) [] = rx (dup_pat u) 0 v []"
      unfolding dt using dup_local[OF assms(1) _ nonl] by simp
  qed
  moreover have "?sub (dup_tail u ws @ post) = r0 @ ?sub post"
    by (rule re_sub_hit[OF dup_hit[OF assms]]) (simp add: dup_tail_def)
  ultimately show ?thesis by simp
qed

lemma collapse_dup_tail:
  assumes "u \<in> {''user1'', ''user2''}" "all_space ws"
  shows "collapse_dup (pre @ dup_tail u ws @ post) =
     collapse_dup pre @ single_tail u @ collapse_dup post"
  using assms(1)
proof (cases rule: user_cases)
  case 1
  have s: "'', user1.address)'' = single_tail ''user1''" by (simp add: single_tail_def)
  show ?thesis
    unfolding collapse_dup_def 1 s
    using dup_collapse[of "''user1''" ws] dup_frame_single[of "''user1''" "''user2''"] assms(2)
    by simp
next
  case 2
  have s: "'', user2.address)'' = single_tail ''user2''" by (simp add: single_tail_def)
  show ?thesis
    unfolding collapse_dup_def 2 s
    using dup_collapse[of "''user2''" ws] dup_frame_dup[of "''user2''" "''user1''" ws] assms(2)
    by simp
qed

lemma trailing_closed:
  assumes "u \<in> {''user1'', ''user2''}"
  shows "rx (trailing_pat u) 0 (x # t) [] =
     (if x = CHR '','' \<and> nl \<in> set (takeWhile is_space t)
      then rx [Lit (u @ ''.address);'')] (1 + length (takeWhile is_space t))
             (dropWhile is_space t) []
      else None)"
  using assms unfolding trailing_pat_def
  by (cases rule: user_cases) (simp_all add: rx_ws_nl_ws u_not_space)

lemma trailing_not_comma: "x \<noteq> CHR '','' \<Longrightarrow> rx (trailing_pat u) 0 (x # t) [] = None"
  by (simp add: trailing_pat_def)

lemma trailing_skip_nocomma:
  assumes "CHR '','' \<notin> set a"
  shows "re_sub (trailing_pat u) repl (a @ r) = a @ re_sub (trailing_pat u) repl r"
proof (rule re_sub_skip_all)
  fix v :: string assume v: "v \<noteq> []" "suffix v a"
  then obtain x v' where vc: "v = x # v'" by (cases v) auto
  have "x \<in> set a" using v(2) vc by (auto simp: suffix_def)
  then have "x \<noteq> CHR '',''" using assms by auto
  then show "rx (trailing_pat u) 0 (v @ r) [] = None" unfolding vc by (simp add: trailing_not_comma)
qed

lemma trailing_miss_no_nl:
  assumes "u' \<in> {''user1'', ''user2''}" "nl \<notin> set (takeWhile is_space z)"
  shows "rx (trailing_pat u') 0 (CHR '','' # z) [] = None"
  using assms(2) by (simp add: trailing_closed[OF assms(1)])

lemma trailing_miss_lit:
  assumes "u \<in> {''user1'', ''user2''}" "u' \<in> {''user1'', ''user2''}" "all_space w"
    and "\<not> prefix (u' @ ''.address);'') (u @ ''.address)'' @ post)"
  shows "rx (trailing_pat u') 0 (CHR '','' # w @ u @ ''.address)'' @ post) [] = None"
proof -
  obtain u0 where u0: "u = CHR ''u'' # u0" using assms(1) by auto
  have tw: "takeWhile is_space (w @ u @ ''.address)'' @ post) = w"
    unfolding u0 using takeWhile_all_space[OF assms(3) u_not_space] by simp
  have dw: "dropWhile is_space (w @ u @ ''.address)'' @ post) = u @ ''.address)'' @ post"
    unfolding u0 using dropWhile_all_space[OF assms(3) u_not_space] by simp
  show ?thesis
    unfolding trailing_closed[OF assms(2)] tw dw using assms(4) by simp
qed

lemma trailing_frame_single:
  assumes "u \<in> {''user1'', ''user2''}" "u' \<in> {''user1'', ''user2''}"
  shows "re_sub (trailing_pat u') (\<lambda>_. r0) (pre @ single_tail u @ post) =
     re_sub (trailing_pat u') (\<lambda>_. r0) pre @ single_tail u
       @ re_sub (trailing_pat u') (\<lambda>_. r0) post"
proof -
  let ?sub = "re_sub (trailing_pat u') (\<lambda>_. r0)"
  let ?a = "CHR '' '' # u @ ''.address)''"
  have nonl: "nl \<notin> set (takeWhile is_space (?a @ post))"
    using assms(1) by (auto simp: space_space u_not_space)
  have "?sub (pre @ CHR '','' # ?a @ post) = ?sub pre @ ?sub (CHR '','' # ?a @ post)"
  proof (rule re_sub_append)
    fix v :: string assume "v \<noteq> []"
    then show "rx (trailing_pat u') 0 (v @ CHR '','' # ?a @ post) [] = rx (trailing_pat u') 0 v []"
      by (rule trailing_local[OF assms(2)])
  qed
  moreover have "?sub (CHR '','' # ?a @ post) = CHR '','' # ?sub (?a @ post)"
    by (rule re_sub_skip) (rule trailing_miss_no_nl[OF assms(2) nonl])
  moreover have "?sub (?a @ post) = ?a @ ?sub post"
    using assms(1) by (intro trailing_skip_nocomma) auto
  ultimately show ?thesis by (simp add: single_tail_def)
qed

lemma trailing_frame_dup:
  assumes "u \<in> {''user1'', ''user2''}" "u' \<in> {''user1'', ''user2''}" "all_space ws"
    and "\<not> prefix (u' @ ''.address);'') (u @ ''.address)'' @ post)"
  shows "re_sub (trailing_pat u') (\<lambda>_. r0) (pre @ dup_tail u ws @ post) =
     re_sub (trailing_pat u') (\<lambda>_. r0) pre @ dup_tail u ws
       @ re_sub (trailing_pat u') (\<lambda>_. r0) post"
proof -
  let ?sub = "re_sub (trailing_pat u') (\<lambda>_. r0)"
  let ?a = "CHR '' '' # u @ ''.address''"
  let ?b = "nl # ws @ u @ ''.address)''"
  have nonl: "nl \<notin> set (takeWhile is_space (?a @ CHR '','' # ?b @ post))"
    using assms(1) by (auto simp: space_space u_not_space)
  have w: "all_space (nl # ws)" using assms(3) nl_space by (simp add: all_space_Cons)
  have "?sub (pre @ CHR '','' # ?a @ CHR '','' # ?b @ post)
      = ?sub pre @ ?sub (CHR '','' # ?a @ CHR '','' # ?b @ post)"
  proof (rule re_sub_append)
    fix v :: string assume "v \<noteq> []"
    then show "rx (trailing_pat u') 0 (v @ CHR '','' # ?a @ CHR '','' # ?b @ post) []
        = rx (trailing_pat u') 0 v []"
      by (rule trailing_local[OF assms(2)])
  qed
  moreover have "?sub (CHR '','' # ?a @ CHR '','' # ?b @ post)
      = CHR '','' # ?sub (?a @ CHR '','' # ?b @ post)"
    by (rule re_sub_skip) (rule trailing_miss_no_nl[OF assms(2) nonl])
  moreover have "?sub (?a @ CHR '','' # ?b @ post) = ?a @ ?sub (CHR '','' # ?b @ post)"
    using assms(1) by (intro trailing_skip_nocomma) auto
  moreover have "rx (trailing_pat u') 0 (CHR '','' # ?b @ post) [] = None"
    using trailing_miss_lit[OF assms(1,2) w assms(4)] by simp
  then have "?sub (CHR '','' # ?b @ post) = CHR '','' # ?sub (?b @ post)"
    by (rule re_sub_skip)
  moreover have "?sub (?b @ post) = ?b @ ?sub post"
    using assms(1) all_space_no_comma[OF assms(3)] by (intro trailing_skip_nocomma) auto
  ultimately show ?thesis by (simp add: dup_tail_def)
qed

lemma trailing_hit_dup:
  assumes "u \<in> {''user1'', ''user2''}" "all_space ws"
  shows "re_sub (trailing_pat u) (\<lambda>_. '');'') (pre @ dup_tail u ws @ CHR '';'' # post) =
     re_sub (trailing_pat u) (\<lambda>_. '');'') pre @ single_tail u
       @ CHR '';'' # re_sub (trailing_pat u) (\<lambda>_. '');'') post"
proof -
  let ?sub = "re_sub (trailing_pat u) (\<lambda>_. '');'')"
  let ?a = "CHR '' '' # u @ ''.address''"
  let ?M = "'','' @ [] @ [nl] @ ws @ u @ ''.address);''"
  have nonl: "nl \<notin> set (takeWhile is_space (?a @ ?M @ post))"
    using assms(1) by (auto simp: space_space u_not_space)
  have "?sub (pre @ CHR '','' # ?a @ ?M @ post) = ?sub pre @ ?sub (CHR '','' # ?a @ ?M @ post)"
  proof (rule re_sub_append)
    fix v :: string assume "v \<noteq> []"
    then show "rx (trailing_pat u) 0 (v @ CHR '','' # ?a @ ?M @ post) []
        = rx (trailing_pat u) 0 v []"
      by (rule trailing_local[OF assms(1)])
  qed
  moreover have "?sub (CHR '','' # ?a @ ?M @ post) = CHR '','' # ?sub (?a @ ?M @ post)"
    by (rule re_sub_skip) (rule trailing_miss_no_nl[OF assms(1) nonl])
  moreover have "?sub (?a @ ?M @ post) = ?a @ ?sub (?M @ post)"
    using assms(1) by (intro trailing_skip_nocomma) auto
  moreover have "?sub (?M @ post) = '');'' @ ?sub post"
    by (rule re_sub_hit[OF trailing_hit[OF assms(1) all_space_Nil assms(2)]]) simp
  ultimately show ?thesis by (simp add: dup_tail_def single_tail_def)
qed

lemma trailing_semicolon:
  "re_sub (trailing_pat u) repl (CHR '';'' # t) = CHR '';'' # re_sub (trailing_pat u) repl t"
  by (rule re_sub_skip) (simp add: trailing_not_comma)

lemma dup_semicolon:
  "re_sub (dup_pat u) repl (CHR '';'' # t) = CHR '';'' # re_sub (dup_pat u) repl t"
  by (rule re_sub_skip) (simp add: dup_not_comma)

lemma drop_trailing_semicolon: "drop_trailing (CHR '';'' # t) = CHR '';'' # drop_trailing t"
  by (simp add: drop_trailing_def trailing_semicolon)

lemma collapse_dup_semicolon: "collapse_dup (CHR '';'' # t) = CHR '';'' # collapse_dup t"
  by (simp add: collapse_dup_def dup_semicolon)

lemma collapse_dup_single:
  assumes "u \<in> {''user1'', ''user2''}"
  shows "collapse_dup (pre @ single_tail u @ post) =
     collapse_dup pre @ single_tail u @ collapse_dup post"
  using assms by (simp add: collapse_dup_def dup_frame_single)

lemma drop_trailing_dup_semicolon:
  assumes "u \<in> {''user1'', ''user2''}" "all_space ws"
  shows "drop_trailing (pre @ dup_tail u ws @ CHR '';'' # post) =
     drop_trailing pre @ single_tail u @ drop_trailing (CHR '';'' # post)"
  using assms(1)
proof (cases rule: user_cases)
  case 1
  have u2: "''user2'' \<in> {''user1'', ''user2''}" by simp
  show ?thesis
    unfolding drop_trailing_def 1
    using trailing_hit_dup[of "''user1''" ws pre post] assms(2)
      trailing_frame_single[of "''user1''" "''user2''"] trailing_semicolon
    by simp
next
  case 2
  have np: "\<not> prefix (''user1'' @ ''.address);'') (''user2'' @ ''.address)'' @ CHR '';'' # post)"
    by simp
  show ?thesis
    unfolding drop_trailing_def 2
    using trailing_frame_dup[OF _ _ assms(2) np, of "'');''" pre]
      trailing_hit_dup[of "''user2''" ws] assms(2) trailing_semicolon
    by simp
qed

lemma trailing_keeps_no_semicolon:
  assumes "\<not> prefix '';'' post"
  shows "\<not> prefix '';'' (re_sub (trailing_pat u) (\<lambda>_. '');'') post)"
proof (cases post)
  case Nil
  then show ?thesis by simp
next
  case (Cons c cs)
  then have "c \<noteq> CHR '';''" using assms by simp
  then show ?thesis unfolding Cons
    by (simp add: re_sub.simps(2) split: option.splits)
qed

lemma drop_trailing_dup_other:
  assumes "u \<in> {''user1'', ''user2''}" "all_space ws" "\<not> prefix '';'' post"
  shows "drop_trailing (pre @ dup_tail u ws @ post) =
     drop_trailing pre @ dup_tail u ws @ drop_trailing post"
proof -
  let ?s1 = "re_sub (trailing_pat ''user1'') (\<lambda>_. '');'')"
  let ?s2 = "re_sub (trailing_pat ''user2'') (\<lambda>_. '');'')"
  have np: "\<not> prefix (u' @ ''.address);'') (u @ ''.address)'' @ q)"
    if "u' \<in> {''user1'', ''user2''}" "\<not> prefix '';'' q" for u' q
    using assms(1) that by (cases q) auto
  have "?s1 (pre @ dup_tail u ws @ post) = ?s1 pre @ dup_tail u ws @ ?s1 post"
    by (rule trailing_frame_dup[OF assms(1) _ assms(2) np[OF _ assms(3)]]) simp_all
  moreover have "?s2 (?s1 pre @ dup_tail u ws @ ?s1 post)
      = ?s2 (?s1 pre) @ dup_tail u ws @ ?s2 (?s1 post)"
    by (rule trailing_frame_dup[OF assms(1) _ assms(2)
          np[OF _ trailing_keeps_no_semicolon[OF assms(3)]]]) simp_all
  ultimately show ?thesis by (simp add: drop_trailing_def)
qed

text \<open>
  C5. For \<open>u\<close> either \<^verbatim>\<open>user1\<close> or \<^verbatim>\<open>user2\<close>, a call that ends in
  \<^verbatim>\<open>, u.address,\<close>, a line break, white space and \<^verbatim>\<open>u.address)\<close> comes out of the
  four substitutions of lines 7 to 10 of \<^verbatim>\<open>cleanup.py\<close> ending in \<^verbatim>\<open>, u.address)\<close>, the
  argument once; the text before and the text after are rewritten on their own. This
  holds whether or not a semicolon follows the call.
\<close>

theorem duplicate_collapsed:
  assumes "u \<in> {''user1'', ''user2''}" "all_space ws"
  shows "remove_duplicates (pre @ dup_tail u ws @ post) =
     remove_duplicates pre @ single_tail u @ remove_duplicates post"
proof (cases "prefix '';'' post")
  case True
  then obtain post' where p: "post = CHR '';'' # post'" by (auto simp: prefix_def)
  show ?thesis
    unfolding remove_duplicates_def p drop_trailing_dup_semicolon[OF assms]
    by (simp add: collapse_dup_single[OF assms(1)])
next
  case False
  show ?thesis
    unfolding remove_duplicates_def drop_trailing_dup_other[OF assms False]
    by (simp add: collapse_dup_tail[OF assms])
qed

theorem duplicate_collapsed_witness:
  "''user1'' \<in> {''user1'', ''user2''} \<and> all_space ''        ''
   \<and> remove_duplicates (''removeLiquidity(lpBalance, 0, 0, pastDeadline, user1.address,'' @ [nl]
        @ ''        user1.address);'')
      = ''removeLiquidity(lpBalance, 0, 0, pastDeadline, user1.address);''"
proof -
  have h: "''user1'' \<in> {''user1'', ''user2''}" "all_space ''        ''"
    by (simp_all add: all_space_def is_space_def)
  have pre: "remove_duplicates ''removeLiquidity(lpBalance, 0, 0, pastDeadline'' =
      ''removeLiquidity(lpBalance, 0, 0, pastDeadline''"
    by code_simp
  have post: "remove_duplicates '';'' = '';''"
    by code_simp
  show ?thesis
    using h pre post
      duplicate_collapsed [OF h, of "''removeLiquidity(lpBalance, 0, 0, pastDeadline''" "'';''"]
    by (simp add: dup_tail_def single_tail_def)
qed

section \<open>The insertion of fix\_test.py\<close>

lemma pattern_unfold:
  "pattern = [Open 1, Lit ''pool.connect('', Open 2, Lit ''user'', One (One_of ''12''), Close 2,
      Lit '').addLiquidity(''] @ slot @ slot @ slot @ slot @ last_atoms"
  by (simp add: pattern_def call_pat_def last_atoms_def eval_nat_numeral)

lemma pattern_head:
  assumes "u \<in> {''user1'', ''user2''}"
  shows "rx pattern 0 (''pool.connect('' @ u @ '').addLiquidity('' @ t) [] =
     rx (slot @ slot @ slot @ slot @ last_atoms) 33 t [(End 2, 18), (Start 2, 13), (Start 1, 0)]"
  using assms unfolding pattern_unfold
  by (cases rule: user_cases) (simp_all add: eval_nat_numeral)

lemma pattern_hit:
  assumes u: "u \<in> {''user1'', ''user2''}"
    and s: "is_slot a1" "is_slot a2" "is_slot a3" "is_slot a4" "is_slot a5"
    and P: "P = ''pool.connect('' @ u @ '').addLiquidity('' @ a1 @ '','' @ a2 @ '','' @ a3
       @ '','' @ a4 @ '','' @ a5"
  shows "rx pattern 0 (P @ CHR '')'' # post) [] =
     Some (Suc (length P), [(End 3, Suc (length P)), (Start 3, length P), (End 1, length P),
       (End 2, 18), (Start 2, 13), (Start 1, 0)])"
proof -
  let ?m = "[(End 2, 18), (Start 2, 13), (Start 1, 0)]"
  have lu: "length u = 5" using u by auto
  have len: "length P = Suc (Suc (Suc (Suc (33 + length a1) + length a2) + length a3)
      + length a4) + length a5"
    unfolding P using lu by simp
  have "rx pattern 0 (P @ CHR '')'' # post) [] =
      rx (slot @ slot @ slot @ slot @ last_atoms) 33
        (a1 @ CHR '','' # a2 @ CHR '','' # a3 @ CHR '','' # a4 @ CHR '','' # a5 @ CHR '')'' # post) ?m"
    unfolding P using pattern_head[OF u] by simp
  also have "\<dots> = rx (slot @ slot @ slot @ last_atoms) (Suc (33 + length a1))
        (a2 @ CHR '','' # a3 @ CHR '','' # a4 @ CHR '','' # a5 @ CHR '')'' # post) ?m"
    using s(1) by (intro rx_slot) (simp_all add: is_slot_def)
  also have "\<dots> = rx (slot @ slot @ last_atoms) (Suc (Suc (33 + length a1) + length a2))
        (a3 @ CHR '','' # a4 @ CHR '','' # a5 @ CHR '')'' # post) ?m"
    using s(2) by (intro rx_slot) (simp_all add: is_slot_def)
  also have "\<dots> = rx (slot @ last_atoms)
        (Suc (Suc (Suc (33 + length a1) + length a2) + length a3))
        (a4 @ CHR '','' # a5 @ CHR '')'' # post) ?m"
    using s(3) by (intro rx_slot) (simp_all add: is_slot_def)
  also have "\<dots> = rx last_atoms
        (Suc (Suc (Suc (Suc (33 + length a1) + length a2) + length a3) + length a4))
        (a5 @ CHR '')'' # post) ?m"
    using s(4) rx_slot[of a4 "last_atoms" _ "a5 @ CHR '')'' # post" ?m]
    by (simp add: is_slot_def)
  also have "\<dots> = Some (Suc (length P), [(End 3, Suc (length P)), (Start 3, length P),
       (End 1, length P), (End 2, 18), (Start 2, 13), (Start 1, 0)])"
    unfolding last_atoms_def len using s(5) by (subst rx_last_slot) (simp_all add: is_slot_def)
  finally show ?thesis .
qed

lemma replace_func_eval:
  assumes "bounds mo = [(End 3, Suc n), (Start 3, n), (End 1, n), (End 2, 18), (Start 2, 13),
      (Start 1, 0)]"
    and "subject mo = P @ CHR '')'' # post" "length P = n" "take 5 (drop 13 P) = u" "18 \<le> n"
  shows "replace_func mo = P @ '','' @ [nl] @ ''        '' @ u @ ''.address'' @ '')''"
proof -
  have g1: "match_group mo 1 = P" using assms by (simp add: match_group_def)
  have "take 5 (drop 13 (P @ CHR '')'' # post)) = take 5 (drop 13 P)"
    using assms(3,5) by simp
  then have g2: "match_group mo 2 = u" using assms by (simp add: match_group_def)
  have g3: "match_group mo 3 = '')''" using assms by (simp add: match_group_def)
  show ?thesis unfolding replace_func_def Let_def g1 g2 g3 by simp
qed

lemma add_call_five:
  "add_call u [a1, a2, a3, a4, a5] = (''pool.connect('' @ u @ '').addLiquidity('' @ a1 @ '',''
     @ a2 @ '','' @ a3 @ '','' @ a4 @ '','' @ a5) @ '')''"
  by (simp add: add_call_def)

lemma add_call_six:
  "add_call u [a1, a2, a3, a4, a5, a6] = (''pool.connect('' @ u @ '').addLiquidity('' @ a1
     @ '','' @ a2 @ '','' @ a3 @ '','' @ a4 @ '','' @ a5) @ '','' @ a6 @ '')''"
  by (simp add: add_call_def)

lemma list_of_five:
  assumes "length xs = 5"
  obtains a1 a2 a3 a4 a5 where "xs = [a1, a2, a3, a4, a5]"
  using assms by (auto simp: eval_nat_numeral length_Suc_conv)

text \<open>
  What \<^verbatim>\<open>pattern.sub\<close> does at a call it reaches: a call of \<^verbatim>\<open>addLiquidity\<close> on
  \<^verbatim>\<open>pool.connect(user1)\<close> or \<^verbatim>\<open>pool.connect(user2)\<close> with exactly five slots, where the
  scan arrives, comes out with a sixth slot: the line break, the indentation and
  \<open>u.address\<close> for the \<open>u\<close> of its own receiver.
\<close>

lemma reached_five_slot_call:
  assumes u: "u \<in> {''user1'', ''user2''}"
    and n: "length slots = 5" and sl: "list_all is_slot slots"
    and reach: "scan_reaches pattern replace_func s (add_call u slots @ post) out"
  shows "re_sub pattern replace_func s =
     out @ add_call u (slots @ [[nl] @ ''        '' @ u @ ''.address''])
       @ re_sub pattern replace_func post"
proof -
  from n obtain a1 a2 a3 a4 a5 where xs: "slots = [a1, a2, a3, a4, a5]" by (rule list_of_five)
  define P where "P = ''pool.connect('' @ u @ '').addLiquidity('' @ a1 @ '','' @ a2 @ '','' @ a3
       @ '','' @ a4 @ '','' @ a5"
  have s: "is_slot a1" "is_slot a2" "is_slot a3" "is_slot a4" "is_slot a5"
    using sl xs by simp_all
  have call: "add_call u slots = P @ '')''" unfolding xs add_call_five P_def ..
  have hit: "rx pattern 0 ((P @ '')'') @ post) [] =
     Some (length (P @ '')''), [(End 3, Suc (length P)), (Start 3, length P), (End 1, length P),
       (End 2, 18), (Start 2, 13), (Start 1, 0)])"
    using pattern_hit[OF u s P_def, of post] by simp
  have lu: "length u = 5" using u by auto
  have tk: "take 5 (drop 13 P) = u" unfolding P_def using lu by simp
  have ge: "18 \<le> length P" unfolding P_def using lu by simp
  have "re_sub pattern replace_func ((P @ '')'') @ post) =
      replace_func \<lparr>subject = (P @ '')'') @ post, span_end = length (P @ '')''),
        bounds = [(End 3, Suc (length P)), (Start 3, length P), (End 1, length P),
          (End 2, 18), (Start 2, 13), (Start 1, 0)]\<rparr> @ re_sub pattern replace_func post"
    by (rule re_sub_hit[OF hit]) simp
  also have "replace_func \<lparr>subject = (P @ '')'') @ post, span_end = length (P @ '')''),
        bounds = [(End 3, Suc (length P)), (Start 3, length P), (End 1, length P),
          (End 2, 18), (Start 2, 13), (Start 1, 0)]\<rparr>
      = P @ '','' @ [nl] @ ''        '' @ u @ ''.address'' @ '')''"
    by (rule replace_func_eval[where n = "length P" and post = post]) (simp_all add: tk ge)
  also have "\<dots> = add_call u (slots @ [[nl] @ ''        '' @ u @ ''.address''])"
    unfolding xs P_def by (simp add: add_call_six)
  finally have "re_sub pattern replace_func (add_call u slots @ post) =
      add_call u (slots @ [[nl] @ ''        '' @ u @ ''.address''])
        @ re_sub pattern replace_func post"
    unfolding call .
  then show ?thesis using scan_reaches_sub[OF reach] by simp
qed

lemma call_pat_receiver:
  assumes "rx (call_pat meth n) 0 s [] \<noteq> None"
  shows "prefix (''pool.connect(user1).'' @ meth @ ''('') s
       \<or> prefix (''pool.connect(user2).'' @ meth @ ''('') s"
proof -
  have p1: "prefix ''pool.connect('' s"
    using assms by (auto simp: call_pat_def split: if_splits)
  then obtain s1 where s1: "s = ''pool.connect('' @ s1" by (auto simp: prefix_def)
  have p2: "prefix ''user'' s1"
    using assms unfolding s1 by (auto simp: call_pat_def split: if_splits)
  then obtain s2 where s2: "s1 = ''user'' @ s2" by (auto simp: prefix_def)
  obtain x s3 where s3: "s2 = x # s3" "x = CHR ''1'' \<or> x = CHR ''2''"
    using assms unfolding s1 s2 by (cases s2) (auto simp: call_pat_def split: if_splits)
  have p4: "prefix ('').'' @ meth @ ''('') s3"
    using assms unfolding s1 s2 s3(1) using s3(2)
    by (auto simp: call_pat_def split: if_splits)
  then obtain s4 where s4: "s3 = '').'' @ meth @ ''('' @ s4" by (auto simp: prefix_def)
  show ?thesis using s3(2) unfolding s1 s2 s3(1) s4 by auto
qed

lemma re_sub_no_match:
  assumes "\<And>v. v \<noteq> [] \<Longrightarrow> suffix v t \<Longrightarrow> rx p 0 v [] = None"
  shows "re_sub p repl t = t"
  using re_sub_skip_all[of t p "[]" repl] assms by simp

lemma no_receiver_no_match:
  assumes "\<not> sublist ''pool.connect(user1)'' t" "\<not> sublist ''pool.connect(user2)'' t"
  shows "re_sub (call_pat meth n) repl t = t"
proof (rule re_sub_no_match)
  fix v assume v: "v \<noteq> []" "suffix v t"
  show "rx (call_pat meth n) 0 v [] = None"
  proof (rule ccontr)
    assume "rx (call_pat meth n) 0 v [] \<noteq> None"
    then have "prefix (''pool.connect(user1)'' @ ''.'' @ meth @ ''('') v
       \<or> prefix (''pool.connect(user2)'' @ ''.'' @ meth @ ''('') v"
      using call_pat_receiver[of meth n v] by simp
    then have "prefix ''pool.connect(user1)'' v \<or> prefix ''pool.connect(user2)'' v"
      using append_prefixD by blast
    then obtain R where R: "R = ''pool.connect(user1)'' \<or> R = ''pool.connect(user2)''"
      and pr: "prefix R v" by blast
    from pr obtain z where vz: "v = R @ z" unfolding prefix_def by blast
    from v(2) obtain ps where "t = ps @ v" by (auto simp: suffix_def)
    then have "sublist R t" unfolding vz by (auto simp: sublist_def)
    then show False using R assms by auto
  qed
qed

text \<open>
  Where a match of either pattern of \<^verbatim>\<open>fix_test.py\<close> can start: only at a call whose
  receiver is \<^verbatim>\<open>pool.connect(user1)\<close> or \<^verbatim>\<open>pool.connect(user2)\<close>; a text in which neither
  receiver occurs is left as it is.
\<close>

lemma matches_start_at_user_receivers:
  "(re_match pattern s \<noteq> None \<longrightarrow>
      prefix ''pool.connect(user1).addLiquidity('' s
      \<or> prefix ''pool.connect(user2).addLiquidity('' s)
   \<and> (re_match pattern2 s \<noteq> None \<longrightarrow>
      prefix ''pool.connect(user1).removeLiquidity('' s
      \<or> prefix ''pool.connect(user2).removeLiquidity('' s)
   \<and> (\<not> sublist ''pool.connect(user1)'' t \<and> \<not> sublist ''pool.connect(user2)'' t \<longrightarrow>
      fix_test t = t)"
proof (intro conjI impI)
  assume "re_match pattern s \<noteq> None"
  then have "rx (call_pat ''addLiquidity'' 4) 0 s [] \<noteq> None"
    by (auto simp: re_match_def pattern_def split: option.splits)
  from call_pat_receiver[OF this]
  show "prefix ''pool.connect(user1).addLiquidity('' s
      \<or> prefix ''pool.connect(user2).addLiquidity('' s" by simp
next
  assume "re_match pattern2 s \<noteq> None"
  then have "rx (call_pat ''removeLiquidity'' 3) 0 s [] \<noteq> None"
    by (auto simp: re_match_def pattern2_def split: option.splits)
  from call_pat_receiver[OF this]
  show "prefix ''pool.connect(user1).removeLiquidity('' s
      \<or> prefix ''pool.connect(user2).removeLiquidity('' s" by simp
next
  assume "\<not> sublist ''pool.connect(user1)'' t \<and> \<not> sublist ''pool.connect(user2)'' t"
  then show "fix_test t = t"
    by (simp add: fix_test_def pattern_def pattern2_def no_receiver_no_match)
qed

section \<open>The literal replacements of cleanup.py\<close>

lemma str_replace_hit:
  "old \<noteq> [] \<Longrightarrow> str_replace old new (old @ r) = new @ str_replace old new r"
  by (cases old) simp_all

lemma str_replace_skip_all:
  "(\<And>v. v \<noteq> [] \<Longrightarrow> suffix v a \<Longrightarrow> \<not> prefix old (v @ r)) \<Longrightarrow>
     str_replace old new (a @ r) = a @ str_replace old new r"
proof (induction a)
  case Nil
  then show ?case by simp
next
  case (Cons c a)
  have "\<not> prefix old (c # a @ r)" using Cons.prems[of "c # a"] by simp
  moreover have "str_replace old new (a @ r) = a @ str_replace old new r"
    using Cons.prems by (intro Cons.IH) (simp add: suffix_ConsI)
  ultimately show ?case by simp
qed

lemma str_replace_append:
  assumes "\<And>v. v \<noteq> [] \<Longrightarrow> suffix v a \<Longrightarrow> prefix old (v @ r) = prefix old v"
  shows "str_replace old new (a @ r) = str_replace old new a @ str_replace old new r"
  using assms
proof (induction "length a" arbitrary: a rule: less_induct)
  case less
  show ?case
  proof (cases a)
    case Nil
    then show ?thesis by simp
  next
    case (Cons c cs)
    have same: "prefix old (c # cs @ r) = prefix old (c # cs)"
      using less.prems[of a] Cons by simp
    have tail: "str_replace old new (cs @ r) = str_replace old new cs @ str_replace old new r"
      using Cons less.prems by (intro less.hyps) (simp_all add: suffix_ConsI)
    show ?thesis
    proof (cases "old \<noteq> [] \<and> prefix old (c # cs)")
      case False
      then show ?thesis using same tail Cons by auto
    next
      case True
      then have le: "length old \<le> length (c # cs)" using prefix_length_le by blast
      have pos: "0 < length old" using True by simp
      have "str_replace old new (drop (length old) a @ r)
          = str_replace old new (drop (length old) a) @ str_replace old new r"
      proof (rule less.hyps)
        show "length (drop (length old) a) < length a" using pos Cons by simp
        fix v assume "v \<noteq> []" "suffix v (drop (length old) a)"
        then show "prefix old (v @ r) = prefix old v"
          using less.prems[of v] suffix_drop[of "length old" a] suffix_order.trans by blast
      qed
      moreover have "drop (length old) ((c # cs) @ r) = drop (length old) (c # cs) @ r"
        using le by (cases "length old") simp_all
      ultimately show ?thesis using True same Cons by simp
    qed
  qed
qed

declare str_replace.simps(2) [simp del]

lemma comparable_of_prefix_append:
  "prefix z (m @ post) \<Longrightarrow> comparable z m"
  by (auto simp: comparable_def prefix_append)

lemma enters_free_local:
  assumes "enters_free old m" "v \<noteq> []"
  shows "prefix old (v @ m @ post) = prefix old v"
proof
  assume p: "prefix old (v @ m @ post)"
  show "prefix old v"
  proof (rule ccontr)
    assume np: "\<not> prefix old v"
    with p obtain z where z: "old = v @ z" "prefix z (m @ post)"
      by (auto simp: prefix_append)
    have "z \<noteq> []" using np z(1) by auto
    then have k: "1 \<le> length v" "length v < length old" using assms(2) z(1)
      by (simp_all add: Suc_leI)
    have "drop (length v) old = z" using z(1) by simp
    moreover have "\<not> comparable (drop (length v) old) m"
      using assms(1) k by (simp add: enters_free_def list_all_iff)
    ultimately show False using comparable_of_prefix_append[OF z(2)] by simp
  qed
next
  assume "prefix old v"
  then show "prefix old (v @ m @ post)" by (rule prefix_prefix)
qed

lemma starts_free_skip:
  assumes "starts_free old m" "v \<noteq> []" "suffix v m"
  shows "\<not> prefix old (v @ post)"
proof
  assume p: "prefix old (v @ post)"
  from assms(3) obtain ps where m: "m = ps @ v" by (auto simp: suffix_def)
  have j: "length ps < length m" using assms(2) m by simp
  have "drop (length ps) m = v" using m by simp
  moreover have "\<not> comparable old (drop (length ps) m)"
    using assms(1) j by (simp add: starts_free_def list_all_iff)
  moreover have "comparable old v"
    using p by (auto simp: comparable_def prefix_append)
  ultimately show False by simp
qed

lemma str_replace_frame:
  assumes "enters_free old m" "starts_free old m"
  shows "str_replace old new (pre @ m @ post) =
     str_replace old new pre @ m @ str_replace old new post"
proof -
  have "str_replace old new (pre @ m @ post) =
      str_replace old new pre @ str_replace old new (m @ post)"
    by (rule str_replace_append) (rule enters_free_local[OF assms(1)])
  moreover have "str_replace old new (m @ post) = m @ str_replace old new post"
    by (rule str_replace_skip_all) (rule starts_free_skip[OF assms(2)])
  ultimately show ?thesis by simp
qed

lemma str_replace_occurrence:
  assumes "enters_free old old" "old \<noteq> []"
  shows "str_replace old new (pre @ old @ post) =
     str_replace old new pre @ new @ str_replace old new post"
proof -
  have "str_replace old new (pre @ old @ post) =
      str_replace old new pre @ str_replace old new (old @ post)"
    by (rule str_replace_append) (rule enters_free_local[OF assms(1)])
  then show ?thesis using str_replace_hit[OF assms(2)] by simp
qed

lemma str_replace_absent:
  assumes "\<not> sublist old t"
  shows "str_replace old new t = t"
proof -
  have "str_replace old new (t @ []) = t @ str_replace old new []"
  proof (rule str_replace_skip_all)
    fix v assume "v \<noteq> []" "suffix v t"
    then obtain ps where t: "t = ps @ v" by (auto simp: suffix_def)
    show "\<not> prefix old (v @ [])"
    proof
      assume "prefix old (v @ [])"
      then obtain z where "v = old @ z" by (auto simp: prefix_def)
      then have "sublist old t" unfolding t sublist_def by blast
      then show False using assms by simp
    qed
  qed
  then show ?thesis by simp
qed

lemma bad_nonempty: "bad1 \<noteq> []" "bad2 \<noteq> []" "bad3 \<noteq> []"
  by (simp_all add: bad1_def bad2_def bad3_def)


lemma bad1_border_free: "enters_free bad1 bad1"
  by code_simp

lemma bad2_border_free: "enters_free bad2 bad2"
  by code_simp

lemma bad3_border_free: "enters_free bad3 bad3"
  by code_simp

lemma bad2_apart_good1: "enters_free bad2 good1" "starts_free bad2 good1"
  by code_simp+

lemma bad3_apart_good1: "enters_free bad3 good1" "starts_free bad3 good1"
  by code_simp+

lemma bad1_apart_bad2: "enters_free bad1 bad2" "starts_free bad1 bad2"
  by code_simp+

lemma bad3_apart_good2: "enters_free bad3 good2" "starts_free bad3 good2"
  by code_simp+

lemma bad1_apart_bad3: "enters_free bad1 bad3" "starts_free bad1 bad3"
  by code_simp+

lemma bad2_apart_bad3: "enters_free bad2 bad3" "starts_free bad2 bad3"
  by code_simp+

lemma replace_literals_absent:
  assumes "\<not> sublist bad1 t" "\<not> sublist bad2 t" "\<not> sublist bad3 t"
  shows "replace_literals t = t"
  using assms by (simp add: replace_literals_def str_replace_absent)

text \<open>
  C6. Wherever one of the three known-bad literals stands in the text given to lines 13
  to 21 of \<^verbatim>\<open>cleanup.py\<close>, its known-good text stands in the result, and the text before
  and the text after are treated on their own; a text that holds none of the three
  literals is returned as it is. Together these equations fix the result on every text.
\<close>

theorem literal_replacement_exact:
  "replace_literals (pre @ bad1 @ post) = replace_literals pre @ good1 @ replace_literals post
   \<and> replace_literals (pre @ bad2 @ post) = replace_literals pre @ good2 @ replace_literals post
   \<and> replace_literals (pre @ bad3 @ post) = replace_literals pre @ good3 @ replace_literals post
   \<and> (\<not> sublist bad1 t \<and> \<not> sublist bad2 t \<and> \<not> sublist bad3 t \<longrightarrow> replace_literals t = t)"
proof (intro conjI impI)
  show "replace_literals (pre @ bad1 @ post) =
      replace_literals pre @ good1 @ replace_literals post"
    unfolding replace_literals_def
    by (simp only: str_replace_occurrence[OF bad1_border_free bad_nonempty(1)]
        str_replace_frame[OF bad2_apart_good1] str_replace_frame[OF bad3_apart_good1])
next
  show "replace_literals (pre @ bad2 @ post) =
      replace_literals pre @ good2 @ replace_literals post"
    unfolding replace_literals_def
    by (simp only: str_replace_frame[OF bad1_apart_bad2]
        str_replace_occurrence[OF bad2_border_free bad_nonempty(2)]
        str_replace_frame[OF bad3_apart_good2])
next
  show "replace_literals (pre @ bad3 @ post) =
      replace_literals pre @ good3 @ replace_literals post"
    unfolding replace_literals_def
    by (simp only: str_replace_frame[OF bad1_apart_bad3] str_replace_frame[OF bad2_apart_bad3]
        str_replace_occurrence[OF bad3_border_free bad_nonempty(3)])
next
  assume "\<not> sublist bad1 t \<and> \<not> sublist bad2 t \<and> \<not> sublist bad3 t"
  then show "replace_literals t = t" by (simp add: replace_literals_absent)
qed

theorem literal_replacement_exact_witness:
  "\<not> sublist bad1 ''pool.connect(user1).addLiquidity(1, 2, 3, 4, 5)''
   \<and> \<not> sublist bad2 ''pool.connect(user1).addLiquidity(1, 2, 3, 4, 5)''
   \<and> \<not> sublist bad3 ''pool.connect(user1).addLiquidity(1, 2, 3, 4, 5)''
   \<and> replace_literals ''pool.connect(user1).addLiquidity(1, 2, 3, 4, 5)'' =
       ''pool.connect(user1).addLiquidity(1, 2, 3, 4, 5)''"
proof -
  have a: "\<not> sublist bad1 ''pool.connect(user1).addLiquidity(1, 2, 3, 4, 5)''"
    "\<not> sublist bad2 ''pool.connect(user1).addLiquidity(1, 2, 3, 4, 5)''"
    "\<not> sublist bad3 ''pool.connect(user1).addLiquidity(1, 2, 3, 4, 5)''"
    by code_simp+
  show ?thesis
    using a literal_replacement_exact [of "[]" "[]" "''pool.connect(user1).addLiquidity(1, 2, 3, 4, 5)''"]
    by blast
qed

section \<open>The frame of the passes\<close>

lemma rewritten_re_sub: "rewritten (re_hit p repl) s (re_sub p repl s)"
proof (induction "length s" arbitrary: s rule: less_induct)
  case less
  show ?case
  proof (cases s)
    case Nil
    then show ?thesis by (simp add: rw_end)
  next
    case (Cons c cs)
    have copy: "rewritten (re_hit p repl) (c # cs) (c # re_sub p repl cs)"
      using less[of cs] Cons by (intro rw_copy) simp
    show ?thesis
    proof (cases "re_match p (c # cs)")
      case None
      then show ?thesis using copy Cons by (simp add: re_sub.simps(2))
    next
      case (Some mo)
      show ?thesis
      proof (cases "span_end mo = 0")
        case True
        then show ?thesis using copy Cons Some by (simp add: re_sub.simps(2))
      next
        case False
        let ?e = "span_end mo"
        let ?m = "take ?e s"
        let ?rest = "drop ?e s"
        obtain bs where rx: "rx p 0 s [] = Some (?e, bs)"
          using Some Cons by (auto simp: re_match_def split: option.splits)
        then have le: "?e \<le> length s" using rx_offset[of p 0 s "[]" ?e bs] by simp
        have "re_hit p repl ?m (repl mo)"
          unfolding re_hit_def using Some Cons le
          by (intro exI[of _ ?rest] exI[of _ mo]) simp
        moreover have "rewritten (re_hit p repl) ?rest (re_sub p repl ?rest)"
          using False Cons by (intro less) simp
        ultimately have "rewritten (re_hit p repl) (?m @ ?rest) (repl mo @ re_sub p repl ?rest)"
          by (rule rw_hit)
        then show ?thesis using Some False Cons by (simp add: re_sub.simps(2))
      qed
    qed
  qed
qed

lemma rewritten_str_replace: "rewritten (lit_hit old new) s (str_replace old new s)"
proof (induction "length s" arbitrary: s rule: less_induct)
  case less
  show ?case
  proof (cases s)
    case Nil
    then show ?thesis by (simp add: rw_end)
  next
    case (Cons c cs)
    show ?thesis
    proof (cases "old \<noteq> [] \<and> prefix old (c # cs)")
      case False
      have "rewritten (lit_hit old new) (c # cs) (c # str_replace old new cs)"
        using less[of cs] Cons by (intro rw_copy) simp
      then show ?thesis using False Cons by (auto simp: str_replace.simps(2))
    next
      case True
      then obtain z where z: "s = old @ z" using Cons by (auto simp: prefix_def)
      have "rewritten (lit_hit old new) z (str_replace old new z)"
        using True z by (intro less) simp
      then have "rewritten (lit_hit old new) (old @ z) (new @ str_replace old new z)"
        by (intro rw_hit) (simp_all add: lit_hit_def)
      then show ?thesis using True z Cons by (simp add: str_replace_hit)
    qed
  qed
qed


lemma passes_append:
  "passes hs s m \<Longrightarrow> passes hs' m t \<Longrightarrow> passes (hs @ hs') s t"
  by (induction hs arbitrary: s) auto

lemma passes_step: "rewritten h s m \<Longrightarrow> passes hs m t \<Longrightarrow> passes (h # hs) s t"
  by auto

lemma passes_cleanup: "passes cleanup_hits t (cleanup t)"
  unfolding cleanup_hits_def cleanup_def replace_literals_def remove_duplicates_def
    collapse_dup_def drop_trailing_def
  apply (rule passes_step [OF rewritten_re_sub])
  apply (rule passes_step [OF rewritten_re_sub])
  apply (rule passes_step [OF rewritten_re_sub])
  apply (rule passes_step [OF rewritten_re_sub])
  apply (rule passes_step [OF rewritten_str_replace])
  apply (rule passes_step [OF rewritten_str_replace])
  apply (rule passes_step [OF rewritten_str_replace])
  apply simp
  done

lemma passes_fix_test: "passes fix_test_hits t (fix_test t)"
  unfolding fix_test_hits_def fix_test_def
  apply (rule passes_step [OF rewritten_re_sub])
  apply (rule passes_step [OF rewritten_re_sub])
  apply simp
  done

text \<open>
  C7. Each pass of either script changes the text only inside the pieces its pattern
  matches: the result of the script arises from its input through the passes in their
  order, each one replacing disjoint matched pieces and copying every other character
  in place. The same holds for the two scripts run one after the other.
\<close>

theorem untouched_outside_matches:
  "passes cleanup_hits t (cleanup t) \<and> passes fix_test_hits t (fix_test t)
   \<and> passes (cleanup_hits @ fix_test_hits) t (normalize t)"
proof (intro conjI)
  show "passes cleanup_hits t (cleanup t)" by (rule passes_cleanup)
  show "passes fix_test_hits t (fix_test t)" by (rule passes_fix_test)
  show "passes (cleanup_hits @ fix_test_hits) t (normalize t)"
    unfolding normalize_def by (rule passes_append [OF passes_cleanup passes_fix_test])
qed

section \<open>No match is empty\<close>

text \<open>
  Every pattern of the two scripts starts with a literal character, so a match consumes
  at least one character and the branch of \<open>re_sub\<close> for an empty match is never taken.
\<close>

lemma rx_lit_positive:
  assumes "rx (Lit (c # l) # as) i s m = Some (e, m')"
  shows "i < e"
proof -
  from assms have "rx as (i + length (c # l)) (drop (length (c # l)) s) m = Some (e, m')"
    by (auto split: if_splits)
  from rx_offset[OF this] show ?thesis by simp
qed

lemma no_empty_match:
  assumes "p = trailing_pat u \<or> p = dup_pat u \<or> p = call_pat meth n"
    and "re_match p s = Some mo"
  shows "0 < span_end mo"
proof -
  obtain m where rx: "rx p 0 s [] = Some (span_end mo, m)"
    using assms(2) by (auto simp: re_match_def split: option.splits)
  from assms(1) consider "p = trailing_pat u" | "p = dup_pat u" | "p = call_pat meth n" by blast
  then show ?thesis
  proof cases
    case 1
    then show ?thesis using rx rx_lit_positive[of "CHR '',''" "[]" _ 0 s "[]"]
      by (simp add: trailing_pat_def)
  next
    case 2
    then show ?thesis using rx rx_lit_positive[of "CHR '',''" "[]" _ 0 s "[]"]
      by (simp add: dup_pat_def)
  next
    case 3
    then have "rx (Lit ''pool.connect('' # Open 2 # Lit ''user'' # One (One_of ''12'') # Close 2
        # Lit ('').'' @ meth @ ''('') # (concat (replicate n slot) @ last_atoms))
        0 s [(Start 1, 0)] = Some (span_end mo, m)"
      using rx by (simp add: call_pat_def last_atoms_def)
    from rx_lit_positive[OF this] show ?thesis .
  qed
qed

section \<open>Behaviour on concrete texts\<close>

text \<open>
  C1 (idempotence of the normalizer). On the five-argument call of the specification's
  own scenario the first run appends the address and the second run appends it again:
  the last slot of the pattern, \<^verbatim>\<open>[^)]+\<close>, runs over commas, so the repaired call is
  matched once more. The two results differ.
\<close>

theorem normalize_not_idempotent:
  "normalize ''pool.connect(user1).addLiquidity(100, 200, 0, 0, deadline)'' =
     ''pool.connect(user1).addLiquidity(100, 200, 0, 0, deadline,'' @ [nl]
       @ ''        user1.address)''
   \<and> normalize (normalize ''pool.connect(user1).addLiquidity(100, 200, 0, 0, deadline)'') =
     ''pool.connect(user1).addLiquidity(100, 200, 0, 0, deadline,'' @ [nl]
       @ ''        user1.address,'' @ [nl] @ ''        user1.address)''"
  by code_simp

text \<open>
  C2 (calls with the right number of arguments pass through). A call of
  \<^verbatim>\<open>addLiquidity\<close> that already has six arguments is matched by \<open>pattern\<close> and gets a
  seventh.
\<close>

theorem six_argument_call_is_changed:
  "fix_test ''pool.connect(user1).addLiquidity(100, 200, 0, 0, deadline, user1.address)'' =
     ''pool.connect(user1).addLiquidity(100, 200, 0, 0, deadline, user1.address,'' @ [nl]
       @ ''        user1.address)''"
  by code_simp

text \<open>
  C4 (no slot holds a comma). The text between the parentheses has five commas, one
  more than the four the pattern spells out, and the pattern matches all the same: group
  1 ends with the last slot \<^verbatim>\<open>5,6\<close>.
\<close>

theorem last_slot_holds_a_comma:
  "map_option (\<lambda>mo. (span_end mo, match_group mo 1))
     (re_match pattern ''pool.connect(user1).addLiquidity(1,2,3,4,5,6)'') =
   Some (45, ''pool.connect(user1).addLiquidity(1,2,3,4,5,6'')"
  by code_simp

text \<open>
  C3 (a five-slot call receives the address of its own subject). The match starts at
  the four-argument call on \<^verbatim>\<open>user2\<close>, although the script's comment says the pattern
  matches calls with five parameters: the first slot \<^verbatim>\<open>[^,]+\<close> runs over the closing
  parenthesis to the first comma of the next call. The five-slot call on \<^verbatim>\<open>user1\<close> lies
  inside that match and receives \<^verbatim>\<open>user2.address\<close>.
\<close>

theorem five_slot_call_gets_other_subject:
  "re_sub pattern replace_func
     ''pool.connect(user2).addLiquidity(1,2,3,4); pool.connect(user1).addLiquidity(a,b,c,d,e)'' =
   ''pool.connect(user2).addLiquidity(1,2,3,4); pool.connect(user1).addLiquidity(a,b,c,d,e,''
     @ [nl] @ ''        user2.address)''"
  by code_simp

text \<open>
  C10 (a call on another receiver is never modified). The match starts at the
  one-argument call on \<^verbatim>\<open>pool.connect(user1)\<close>, although the script's comment says the
  pattern matches calls with five parameters, and runs on through the call on
  \<^verbatim>\<open>pool.connect(owner)\<close>, which comes out with \<^verbatim>\<open>user1.address\<close> appended.
\<close>

theorem other_receiver_call_is_changed:
  "fix_test ''pool.connect(user1).addLiquidity(a); pool.connect(owner).addLiquidity(1,2,3,4,5)'' =
   ''pool.connect(user1).addLiquidity(a); pool.connect(owner).addLiquidity(1,2,3,4,5,''
     @ [nl] @ ''        user1.address)''"
  by code_simp

end
